theory Spec2Isabelle
  imports Main "HOL-Library.Word"
begin

unbundle bit_operations_syntax

section \<open>Data model\<close>

text \<open>
  The elements of a \<open>Uint8Array\<close> are bytes, those of an \<open>Int32Array\<close> are 32-bit
  words.  A JavaScript number that is an operand of a bitwise operator, or that is stored
  into an \<open>Int32Array\<close>, is first reduced by ToInt32, that is modulo \<open>2 ^ 32\<close>; it is
  represented here by that 32-bit pattern.  Lengths, positions and counters are
  non-negative integers; the byte counter is a JavaScript number, exact below \<open>2 ^ 53\<close>,
  and is not bounded here.
\<close>

type_synonym byte = "8 word"
type_synonym int32 = "32 word"

definition DIGEST_LENGTH :: nat where
  "DIGEST_LENGTH = 20"

definition BLOCK_SIZE :: nat where
  "BLOCK_SIZE = 64"

text \<open>
  Reading a typed array past its end gives \<open>undefined\<close>, which a bitwise operator and a
  store into a typed array both turn into 0.  Writing a typed array past its end does
  nothing, which is what \<open>xs[i := v]\<close> does.
\<close>

definition byte_at :: "byte list \<Rightarrow> nat \<Rightarrow> byte" where
  "byte_at p i = (if i < length p then p ! i else 0)"

text \<open>
  Modelled from the spec: \<open>readUint32BE\<close> and \<open>writeUint32BE\<close> are imported from
  the package @stablelib/binary and are not under src/.  The spec has the engine
  "load 16 big-endian 32-bit words from the block" and has finish write "the two 32-bit
  big-endian length words" and "the 20-byte big-endian serialization of the 5 state
  words".  Neither function checks the bounds of the array.
\<close>

definition readUint32BE :: "byte list \<Rightarrow> nat \<Rightarrow> int32" where
  "readUint32BE array offset =
     push_bit 24 (ucast (byte_at array offset)) OR
     push_bit 16 (ucast (byte_at array (offset + 1))) OR
     push_bit 8 (ucast (byte_at array (offset + 2))) OR
     ucast (byte_at array (offset + 3))"

definition writeUint32BE :: "int32 \<Rightarrow> byte list \<Rightarrow> nat \<Rightarrow> byte list" where
  "writeUint32BE v out offset =
     out[offset := ucast (drop_bit 24 v),
         offset + 1 := ucast (drop_bit 16 v),
         offset + 2 := ucast (drop_bit 8 v),
         offset + 3 := ucast v]"

text \<open>
  Modelled from the spec: \<open>wipe\<close> is imported from @stablelib/wipe and is not under
  src/; the spec has clean "zero buffer and schedule memory".
\<close>

definition wipe :: "'a::zero list \<Rightarrow> 'a list" where
  "wipe xs = map (\<lambda>_. 0) xs"

record SHA1 =
  state :: "int32 list"
  temp :: "int32 list"
  buffer :: "byte list"
  bufferLength :: nat
  bytesHashed :: nat
  finished :: bool

record SavedState =
  saved_state :: "int32 list"
  saved_buffer :: "byte list option"
  saved_bufferLength :: nat
  saved_bytesHashed :: nat

text \<open>What a method throws.\<close>

datatype error =
  Error string
| RangeError

section \<open>The compression engine\<close>

text \<open>\<open>leftrotate\<close>: \<open>(x << c) | (x >>> (32 - c))\<close>, for \<open>c \<le> 32\<close>; a shift count is taken
  modulo 32.\<close>

definition leftrotate :: "int32 \<Rightarrow> nat \<Rightarrow> int32" where
  "leftrotate x c = push_bit (c mod 32) x OR drop_bit ((32 - c) mod 32) x"

text \<open>\<open>safeAdd\<close>: the sum of the low halves, then the sum of the high halves (shifted
  arithmetically) with the carry, put together again.\<close>

definition safeAdd :: "int32 \<Rightarrow> int32 \<Rightarrow> int32" where
  "safeAdd x y =
     (let lsw = (x AND 0xffff) + (y AND 0xffff);
          msw = signed_drop_bit 16 x + signed_drop_bit 16 y + signed_drop_bit 16 lsw
      in push_bit 16 msw OR (lsw AND 0xffff))"

text \<open>The first loop of a block: \<open>w[i] = readUint32BE(p, pos + i * 4)\<close> for \<open>i < 16\<close>.\<close>

definition load_words :: "int32 list \<Rightarrow> byte list \<Rightarrow> nat \<Rightarrow> int32 list" where
  "load_words w p pos = fold (\<lambda>i w. w[i := readUint32BE p (pos + i * 4)]) [0..<16] w"

text \<open>The second loop: the schedule is extended in place for \<open>16 \<le> i < 80\<close>.\<close>

definition expand_words :: "int32 list \<Rightarrow> int32 list" where
  "expand_words w =
     fold (\<lambda>i w. w[i := leftrotate (w ! (i - 3) XOR w ! (i - 8) XOR w ! (i - 14) XOR w ! (i - 16)) 1])
       [16..<80] w"

definition round_f :: "nat \<Rightarrow> int32 \<Rightarrow> int32 \<Rightarrow> int32 \<Rightarrow> int32" where
  "round_f i b c d =
     (if i \<le> 19 then (b AND c) OR (NOT b AND d)
      else if 20 \<le> i \<and> i \<le> 39 then b XOR c XOR d
      else if 40 \<le> i \<and> i \<le> 59 then (b AND c) OR (b AND d) OR (c AND d)
      else b XOR c XOR d)"

definition round_k :: "nat \<Rightarrow> int32" where
  "round_k i =
     (if i \<le> 19 then 0x5a827999
      else if 20 \<le> i \<and> i \<le> 39 then 0x6ed9eba1
      else if 40 \<le> i \<and> i \<le> 59 then 0x8f1bbcdc
      else 0xca62c1d6)"

type_synonym working = "int32 \<times> int32 \<times> int32 \<times> int32 \<times> int32"

text \<open>One round of the third loop, on the working variables \<open>a\<close> to \<open>e\<close>.\<close>

definition round_step :: "int32 list \<Rightarrow> nat \<Rightarrow> working \<Rightarrow> working" where
  "round_step w i = (\<lambda>(a, b, c, d, e).
     (safeAdd (leftrotate a 5)
        (safeAdd (round_f i b c d) (safeAdd e (safeAdd (round_k i) (w ! i)))),
      a, leftrotate b 30, c, d))"

definition rounds :: "int32 list \<Rightarrow> working \<Rightarrow> working" where
  "rounds w = fold (round_step w) [0..<80]"

text \<open>The five assignments after the rounds, in the order of the source.\<close>

definition accumulate :: "int32 list \<Rightarrow> working \<Rightarrow> int32 list" where
  "accumulate v = (\<lambda>(a, b, c, d, e).
     (let v0 = v[0 := safeAdd (v ! 0) a];
          v1 = v0[1 := safeAdd (v0 ! 1) b];
          v2 = v1[2 := safeAdd (v1 ! 2) c];
          v3 = v2[3 := safeAdd (v2 ! 3) d]
      in v3[4 := safeAdd (v3 ! 4) e]))"

text \<open>The body of the \<open>while\<close> loop of \<open>hashBlocks\<close>: one block at \<open>pos\<close>; it returns the
  schedule array and the state array as it leaves them.\<close>

definition hashBlock :: "int32 list \<Rightarrow> int32 list \<Rightarrow> byte list \<Rightarrow> nat \<Rightarrow> int32 list \<times> int32 list" where
  "hashBlock w v p pos =
     (let w' = expand_words (load_words w p pos)
      in (w', accumulate v (rounds w' (v ! 0, v ! 1, v ! 2, v ! 3, v ! 4))))"

function hashBlocks ::
  "int32 list \<Rightarrow> int32 list \<Rightarrow> byte list \<Rightarrow> nat \<Rightarrow> nat \<Rightarrow> int32 list \<times> int32 list \<times> nat" where
  "hashBlocks w v p pos len =
     (if 64 \<le> len
      then (case hashBlock w v p pos of (w', v') \<Rightarrow> hashBlocks w' v' p (pos + 64) (len - 64))
      else (w, v, pos))"
  by pat_completeness auto
termination
  by (relation "measure (\<lambda>(w, v, p, pos, len). len)") auto

section \<open>The incremental hasher\<close>

definition initState :: "SHA1 \<Rightarrow> SHA1" where
  "initState h = h\<lparr>state := (state h)[0 := 0x67452301, 1 := 0xefcdab89, 2 := 0x98badcfe,
                                      3 := 0x10325476, 4 := 0xc3d2e1f0]\<rparr>"

definition reset :: "SHA1 \<Rightarrow> SHA1" where
  "reset h = (initState h)\<lparr>bufferLength := 0, bytesHashed := 0, finished := False\<rparr>"

text \<open>The constructor: the field initialisers, then \<open>reset\<close>.\<close>

definition SHA1_new :: SHA1 where
  "SHA1_new = reset \<lparr>state = replicate 5 0, temp = replicate 80 0, buffer = replicate 128 0,
                      bufferLength = 0, bytesHashed = 0, finished = False\<rparr>"

definition clean :: "SHA1 \<Rightarrow> SHA1" where
  "clean h = reset (h\<lparr>buffer := wipe (buffer h), temp := wipe (temp h)\<rparr>)"

text \<open>The first \<open>while\<close> loop of \<open>update\<close>: bytes are copied into the buffer until it holds
  a block or the data ends.  The result is the buffer, its length, the position in the
  data and the length left.\<close>

function fill_buffer ::
  "byte list \<Rightarrow> nat \<Rightarrow> byte list \<Rightarrow> nat \<Rightarrow> nat \<Rightarrow> byte list \<times> nat \<times> nat \<times> nat" where
  "fill_buffer buf bl data dataPos dataLength =
     (if bl < BLOCK_SIZE \<and> 0 < dataLength
      then fill_buffer (buf[bl := byte_at data dataPos]) (bl + 1) data (dataPos + 1) (dataLength - 1)
      else (buf, bl, dataPos, dataLength))"
  by pat_completeness auto
termination
  by (relation "measure (\<lambda>(buf, bl, data, dataPos, dataLength). dataLength)") auto

text \<open>The last \<open>while\<close> loop of \<open>update\<close>: the rest of the data is copied into the buffer.\<close>

function copy_tail ::
  "byte list \<Rightarrow> nat \<Rightarrow> byte list \<Rightarrow> nat \<Rightarrow> nat \<Rightarrow> byte list \<times> nat \<times> nat \<times> nat" where
  "copy_tail buf bl data dataPos dataLength =
     (if 0 < dataLength
      then copy_tail (buf[bl := byte_at data dataPos]) (bl + 1) data (dataPos + 1) (dataLength - 1)
      else (buf, bl, dataPos, dataLength))"
  by pat_completeness auto
termination
  by (relation "measure (\<lambda>(buf, bl, data, dataPos, dataLength). dataLength)") auto

text \<open>\<open>update(data, dataLength)\<close>: the outcome (what is thrown, or a normal return) and the
  hasher as the call leaves it.  The length is a non-negative integer here, as it is when
  it is left to its default \<open>data.length\<close>; the source takes any number, and a negative
  or fractional one moves the byte counter without the buffer length following it.\<close>

definition update :: "SHA1 \<Rightarrow> byte list \<Rightarrow> nat \<Rightarrow> (error + unit) \<times> SHA1" where
  "update h data dataLength =
     (if finished h then (Inl (Error ''SHA1: can't update because hash was finished.''), h)
      else
        let h1 = h\<lparr>bytesHashed := bytesHashed h + dataLength\<rparr>;
            (h2, dataPos2, dataLength2) =
              (if 0 < bufferLength h1
               then (case fill_buffer (buffer h1) (bufferLength h1) data 0 dataLength of
                       (buf, bl, dataPos, dataLength') \<Rightarrow>
                         (if bl = BLOCK_SIZE
                          then (case hashBlocks (temp h1) (state h1) buf 0 BLOCK_SIZE of
                                  (w, v, _) \<Rightarrow>
                                    (h1\<lparr>state := v, temp := w, buffer := buf, bufferLength := 0\<rparr>,
                                     dataPos, dataLength'))
                          else (h1\<lparr>buffer := buf, bufferLength := bl\<rparr>, dataPos, dataLength')))
               else (h1, 0, dataLength));
            (h3, dataPos3, dataLength3) =
              (if BLOCK_SIZE \<le> dataLength2
               then (case hashBlocks (temp h2) (state h2) data dataPos2 dataLength2 of
                       (w, v, dataPos) \<Rightarrow>
                         (h2\<lparr>state := v, temp := w\<rparr>, dataPos, dataLength2 mod BLOCK_SIZE))
               else (h2, dataPos2, dataLength2))
        in (case copy_tail (buffer h3) (bufferLength h3) data dataPos3 dataLength3 of
              (buf, bl, _, _) \<Rightarrow> (Inr (), h3\<lparr>buffer := buf, bufferLength := bl\<rparr>)))"

text \<open>\<open>finish(out)\<close>: the hasher and the output array as the call leaves them.  The method
  has no \<open>throw\<close>.\<close>

definition finish :: "SHA1 \<Rightarrow> byte list \<Rightarrow> SHA1 \<times> byte list" where
  "finish h out =
     (let h' =
        (if \<not> finished h then
           (let left = bufferLength h;
                bitLenHi = (word_of_nat (bytesHashed h div 0x20000000) :: int32);
                bitLenLo = (push_bit 3 (word_of_nat (bytesHashed h)) :: int32);
                padLength = (if bytesHashed h mod 64 < 56 then 64 else 128);
                buf1 = (buffer h)[left := 0x80];
                buf2 = fold (\<lambda>i b. b[i := 0]) [left + 1..<padLength - 8] buf1;
                buf3 = writeUint32BE bitLenHi buf2 (padLength - 8);
                buf4 = writeUint32BE bitLenLo buf3 (padLength - 4)
            in (case hashBlocks (temp h) (state h) buf4 0 padLength of
                  (w, v, _) \<Rightarrow> h\<lparr>state := v, temp := w, buffer := buf4, finished := True\<rparr>))
         else h)
      in (h', fold (\<lambda>i out. writeUint32BE (state h' ! i) out (i * 4)) [0..<DIGEST_LENGTH div 4] out))"

definition digest :: "SHA1 \<Rightarrow> SHA1 \<times> byte list" where
  "digest h = finish h (replicate DIGEST_LENGTH 0)"


text \<open>\<open>TypedArray.prototype.set\<close> copies the source over the start of the target and
  throws a \<open>RangeError\<close> when the source is the longer one.\<close>

definition array_set :: "'a list \<Rightarrow> 'a list \<Rightarrow> error + 'a list" where
  "array_set target src =
     (if length target < length src then Inl RangeError
      else Inr (src @ drop (length src) target))"

definition restoreState :: "SHA1 \<Rightarrow> SavedState \<Rightarrow> (error + unit) \<times> SHA1" where
  "restoreState h s =
     (case array_set (state h) (saved_state s) of
        Inl e \<Rightarrow> (Inl e, h)
      | Inr v \<Rightarrow>
          (let h1 = h\<lparr>state := v, bufferLength := saved_bufferLength s\<rparr>
           in (case (case saved_buffer s of
                       None \<Rightarrow> Inr (buffer h1)
                     | Some b \<Rightarrow> array_set (buffer h1) b) of
                 Inl e \<Rightarrow> (Inl e, h1)
               | Inr buf \<Rightarrow>
                   (Inr (), h1\<lparr>buffer := buf, bytesHashed := saved_bytesHashed s,
                               finished := False\<rparr>))))"


section \<open>The convenience functions\<close>

definition hash :: "byte list \<Rightarrow> error + byte list" where
  "hash data =
     (case update SHA1_new data (length data) of
        (Inl e, _) \<Rightarrow> Inl e
      | (Inr _, h) \<Rightarrow> Inr (snd (digest h)))"

text \<open>A JavaScript string is a sequence of UTF-16 code units.\<close>

type_synonym js_string = "nat list"

text \<open>
  Modelled from the spec: \<open>TextEncoder\<close> belongs to the platform and is not under
  src/; the spec calls it the "UTF-8 text to bytes" helper.  A surrogate pair is one code
  point, a lone surrogate is encoded as U+FFFD.
\<close>

definition utf8_bytes :: "nat \<Rightarrow> byte list" where
  "utf8_bytes c =
     (if c < 0x80 then [of_nat c]
      else if c < 0x800 then [of_nat (0xC0 + c div 64), of_nat (0x80 + c mod 64)]
      else if c < 0x10000 then
        [of_nat (0xE0 + c div 4096), of_nat (0x80 + c div 64 mod 64), of_nat (0x80 + c mod 64)]
      else
        [of_nat (0xF0 + c div 262144), of_nat (0x80 + c div 4096 mod 64),
         of_nat (0x80 + c div 64 mod 64), of_nat (0x80 + c mod 64)])"

definition is_surrogate :: "nat \<Rightarrow> bool" where
  "is_surrogate u \<longleftrightarrow> 0xD800 \<le> u \<and> u < 0xE000"

fun TextEncoder_encode :: "js_string \<Rightarrow> byte list" where
  "TextEncoder_encode [] = []"
| "TextEncoder_encode [u] = utf8_bytes (if is_surrogate u then 0xFFFD else u)"
| "TextEncoder_encode (u # l # us) =
     (if 0xD800 \<le> u \<and> u < 0xDC00 \<and> 0xDC00 \<le> l \<and> l < 0xE000
      then utf8_bytes (0x10000 + (u - 0xD800) * 0x400 + (l - 0xDC00)) @ TextEncoder_encode us
      else utf8_bytes (if is_surrogate u then 0xFFFD else u) @ TextEncoder_encode (l # us))"

text \<open>The code units of a string literal of ASCII characters.\<close>

definition ascii :: "string \<Rightarrow> js_string" where
  "ascii s = map of_char s"

text \<open>
  Modelled from the spec: \<open>arrayBufferToHex\<close> is the package array-buffer-to-hex and
  is not under src/; the spec calls it "hex-encoding of output", and its known-answer
  vectors are in lower case, two digits for a byte.
\<close>

definition hex_digit :: "nat \<Rightarrow> char" where
  "hex_digit n = ''0123456789abcdef'' ! n"

definition arrayBufferToHex :: "byte list \<Rightarrow> string" where
  "arrayBufferToHex bs = concat (map (\<lambda>b. [hex_digit (unat b div 16), hex_digit (unat b mod 16)]) bs)"

definition sha1 :: "js_string \<Rightarrow> error + string" where
  "sha1 s =
     (case hash (TextEncoder_encode s) of
        Inl e \<Rightarrow> Inl e
      | Inr h \<Rightarrow> Inr (arrayBufferToHex h))"

text \<open>
  Modelled from the spec: \<open>hmac\<close> is imported from the package @stablelib/hmac and is
  not under src/.  The spec (4.3) gives the construction for any hash of the same shape:
  "if key longer than block size, replace key with its hash digest; pad key with zero
  bytes to block size; compute inner pad = key XOR 0x36-repeated, outer pad = key XOR
  0x5C-repeated; result = Hash(outerPad ++ Hash(innerPad ++ message))".  The hash is
  given by its one-shot function and its block size.
\<close>

definition hmac ::
  "(byte list \<Rightarrow> error + byte list) \<Rightarrow> nat \<Rightarrow> byte list \<Rightarrow> byte list \<Rightarrow> error + byte list" where
  "hmac H blockSize key data =
     (case (if blockSize < length key then H key else Inr key) of
        Inl e \<Rightarrow> Inl e
      | Inr k \<Rightarrow>
          (let pad = k @ replicate (blockSize - length k) 0;
               innerPad = map (\<lambda>b. b XOR 0x36) pad;
               outerPad = map (\<lambda>b. b XOR 0x5c) pad
           in (case H (innerPad @ data) of
                 Inl e \<Rightarrow> Inl e
               | Inr inner \<Rightarrow> H (outerPad @ inner))))"

definition hashWithHmac :: "byte list \<Rightarrow> byte list \<Rightarrow> error + byte list" where
  "hashWithHmac key data = hmac hash BLOCK_SIZE key data"

definition HmacSHA1 :: "js_string \<Rightarrow> js_string \<Rightarrow> error + string" where
  "HmacSHA1 key data =
     (case hashWithHmac (TextEncoder_encode key) (TextEncoder_encode data) of
        Inl e \<Rightarrow> Inl e
      | Inr h \<Rightarrow> Inr (arrayBufferToHex h))"

section \<open>Sequences of calls\<close>

text \<open>\<open>update\<close> called once for each chunk, in order; the first throw ends the sequence.\<close>

fun update_chunks :: "SHA1 \<Rightarrow> byte list list \<Rightarrow> (error + unit) \<times> SHA1" where
  "update_chunks h [] = (Inr (), h)"
| "update_chunks h (c # cs) =
     (case update h c (length c) of
        (Inl e, h') \<Rightarrow> (Inl e, h')
      | (Inr _, h') \<Rightarrow> update_chunks h' cs)"

text \<open>
  The hashers that the public methods produce from a new one, whatever the outcome of a
  call.  \<open>restoreState\<close> takes any snapshot: \<open>SavedState\<close> is an exported type of plain
  objects, and the method checks nothing.
\<close>

inductive reachable :: "SHA1 \<Rightarrow> bool" where
  r_new: "reachable SHA1_new"
| r_reset: "reachable h \<Longrightarrow> reachable (reset h)"
| r_clean: "reachable h \<Longrightarrow> reachable (clean h)"
| r_update: "reachable h \<Longrightarrow> reachable (snd (update h data dataLength))"
| r_finish: "reachable h \<Longrightarrow> reachable (fst (finish h out))"
| r_restoreState: "reachable h \<Longrightarrow> reachable (snd (restoreState h s))"


section \<open>Notions for the proofs\<close>

text \<open>The recursive equations of the loops are unfolded by hand.\<close>

declare hashBlocks.simps [simp del] fill_buffer.simps [simp del] copy_tail.simps [simp del]

text \<open>\<open>slice p pos n\<close>: the \<open>n\<close> bytes that the code reads from \<open>p\<close> at \<open>pos\<close>.\<close>

definition slice :: "byte list \<Rightarrow> nat \<Rightarrow> nat \<Rightarrow> byte list" where
  "slice p pos n = map (byte_at p) [pos..<pos + n]"

text \<open>The message as the engine sees it: its complete blocks, in order.\<close>

function blocks_of :: "byte list \<Rightarrow> byte list list" where
  "blocks_of xs = (if length xs < 64 then [] else take 64 xs # blocks_of (drop 64 xs))"
  by pat_completeness auto
termination
  by (relation "measure length") auto

declare blocks_of.simps [simp del]

text \<open>The second loop of a block, stopped at \<open>n\<close>.\<close>

definition expand_upto :: "nat \<Rightarrow> int32 list \<Rightarrow> int32 list" where
  "expand_upto n w =
     fold (\<lambda>i w. w[i := leftrotate (w ! (i - 3) XOR w ! (i - 8) XOR w ! (i - 14) XOR w ! (i - 16)) 1])
       [16..<n] w"

text \<open>What one block does to the state: the body of \<open>hashBlocks\<close>, run on a schedule array of zeros.\<close>

definition compress :: "int32 list \<Rightarrow> byte list \<Rightarrow> int32 list" where
  "compress v blk = snd (hashBlock (replicate 80 0) v blk 0)"

definition H0 :: "int32 list" where
  "H0 = [0x67452301, 0xefcdab89, 0x98badcfe, 0x10325476, 0xc3d2e1f0]"

text \<open>The arrays of a hasher have the sizes that the class gives them.\<close>

definition wf :: "SHA1 \<Rightarrow> bool" where
  "wf h \<longleftrightarrow> length (state h) = 5 \<and> length (temp h) = 80 \<and> length (buffer h) = 128"

text \<open>\<open>absorbed_from v0 k h m\<close>: the unfinished hasher \<open>h\<close> has taken in the bytes \<open>m\<close>,
  after \<open>k\<close> bytes in complete blocks that left the state \<open>v0\<close>: the complete blocks of \<open>m\<close>
  are hashed into the state, and the rest of \<open>m\<close> waits at the start of the buffer.\<close>

definition absorbed_from :: "int32 list \<Rightarrow> nat \<Rightarrow> SHA1 \<Rightarrow> byte list \<Rightarrow> bool" where
  "absorbed_from v0 k h m \<longleftrightarrow>
     wf h \<and> \<not> finished h \<and> k mod 64 = 0 \<and> bytesHashed h = k + length m \<and>
     bufferLength h = length m mod 64 \<and>
     take (length m mod 64) (buffer h) = drop (length m - length m mod 64) m \<and>
     state h = foldl compress v0 (blocks_of m)"

definition absorbed :: "SHA1 \<Rightarrow> byte list \<Rightarrow> bool" where
  "absorbed h m \<longleftrightarrow> absorbed_from H0 0 h m"

text \<open>The two halves of the body of \<open>update\<close>, after the counter is advanced: the buffered
  block is completed, and the rest of the data is hashed or copied.\<close>

definition update_fill :: "SHA1 \<Rightarrow> byte list \<Rightarrow> nat \<Rightarrow> SHA1 \<times> nat \<times> nat" where
  "update_fill h1 data dataLength =
              (if 0 < bufferLength h1
               then (case fill_buffer (buffer h1) (bufferLength h1) data 0 dataLength of
                       (buf, bl, dataPos, dataLength') \<Rightarrow>
                         (if bl = BLOCK_SIZE
                          then (case hashBlocks (temp h1) (state h1) buf 0 BLOCK_SIZE of
                                  (w, v, _) \<Rightarrow>
                                    (h1\<lparr>state := v, temp := w, buffer := buf, bufferLength := 0\<rparr>,
                                     dataPos, dataLength'))
                          else (h1\<lparr>buffer := buf, bufferLength := bl\<rparr>, dataPos, dataLength')))
               else (h1, 0, dataLength))"

definition update_rest :: "SHA1 \<Rightarrow> byte list \<Rightarrow> nat \<Rightarrow> nat \<Rightarrow> SHA1" where
  "update_rest h2 data dataPos2 dataLength2 =
     (let (h3, dataPos3, dataLength3) =
              (if BLOCK_SIZE \<le> dataLength2
               then (case hashBlocks (temp h2) (state h2) data dataPos2 dataLength2 of
                       (w, v, dataPos) \<Rightarrow>
                         (h2\<lparr>state := v, temp := w\<rparr>, dataPos, dataLength2 mod BLOCK_SIZE))
               else (h2, dataPos2, dataLength2))
        in (case copy_tail (buffer h3) (bufferLength h3) data dataPos3 dataLength3 of
              (buf, bl, _, _) \<Rightarrow> h3\<lparr>buffer := buf, bufferLength := bl\<rparr>))"

text \<open>The four bytes of a word, the most significant first.\<close>

definition be32 :: "int32 \<Rightarrow> byte list" where
  "be32 v = [ucast (drop_bit 24 v), ucast (drop_bit 16 v), ucast (drop_bit 8 v), ucast v]"

definition digest_bytes :: "int32 list \<Rightarrow> byte list" where
  "digest_bytes v = concat (map be32 v)"

text \<open>The parts of the body of \<open>finish\<close>.\<close>

definition write_words :: "nat \<Rightarrow> int32 list \<Rightarrow> byte list \<Rightarrow> byte list" where
  "write_words n v out = fold (\<lambda>i out. writeUint32BE (v ! i) out (i * 4)) [0..<n] out"

definition write_digest :: "int32 list \<Rightarrow> byte list \<Rightarrow> byte list" where
  "write_digest v out = fold (\<lambda>i out. writeUint32BE (v ! i) out (i * 4)) [0..<DIGEST_LENGTH div 4] out"

definition padLength_of :: "SHA1 \<Rightarrow> nat" where
  "padLength_of h = (if bytesHashed h mod 64 < 56 then 64 else 128)"

definition bitLenHi_of :: "SHA1 \<Rightarrow> int32" where
  "bitLenHi_of h = word_of_nat (bytesHashed h div 0x20000000)"

definition bitLenLo_of :: "SHA1 \<Rightarrow> int32" where
  "bitLenLo_of h = push_bit 3 (word_of_nat (bytesHashed h))"

definition pad_buffer :: "SHA1 \<Rightarrow> byte list" where
  "pad_buffer h =
     writeUint32BE (bitLenLo_of h)
       (writeUint32BE (bitLenHi_of h)
          (fold (\<lambda>i b. b[i := 0]) [bufferLength h + 1..<padLength_of h - 8] ((buffer h)[bufferLength h := 0x80]))
          (padLength_of h - 8))
       (padLength_of h - 4)"

definition finalize :: "SHA1 \<Rightarrow> SHA1" where
  "finalize h =
     (case hashBlocks (temp h) (state h) (pad_buffer h) 0 (padLength_of h) of
        (w, v, _) \<Rightarrow> h\<lparr>state := v, temp := w, buffer := pad_buffer h, finished := True\<rparr>)"

text \<open>The bytes that finishing appends to a message of \<open>n\<close> bytes, and the state that hashing
  the message leaves.\<close>

definition padding :: "nat \<Rightarrow> byte list" where
  "padding n =
     [0x80] @ replicate ((if n mod 64 < 56 then 55 else 119) - n mod 64) 0 @
     be32 (word_of_nat (n div 0x20000000)) @ be32 (push_bit 3 (word_of_nat n))"

definition sha1_state :: "byte list \<Rightarrow> int32 list" where
  "sha1_state m = foldl compress H0 (blocks_of (m @ padding (length m)))"



text \<open>A snapshot written by hand, not returned by \<open>saveState\<close>: the initial state
  words, a buffer of 128 bytes 7, and the two lengths as given.\<close>

definition handmade :: "nat \<Rightarrow> nat \<Rightarrow> SavedState" where
  "handmade bl bh =
     \<lparr>saved_state = H0, saved_buffer = Some (replicate 128 7),
      saved_bufferLength = bl, saved_bytesHashed = bh\<rparr>"

text \<open>
  The engine in a form that evaluates: the sixteen words of a block, the schedule grown at
  the head of a reversed list, and the rounds along the list of schedule words.
\<close>

fun be_words :: "byte list \<Rightarrow> int32 list" where
  "be_words (a # b # c # d # rest) =
     (push_bit 24 (ucast a) OR push_bit 16 (ucast b) OR push_bit 8 (ucast c) OR ucast d) # be_words rest"
| "be_words _ = []"

definition sched_step :: "int32 list \<Rightarrow> int32 list" where
  "sched_step r = leftrotate (r ! 2 XOR r ! 7 XOR r ! 13 XOR r ! 15) 1 # r"

fun ext_rev :: "nat \<Rightarrow> int32 list \<Rightarrow> int32 list" where
  "ext_rev 0 r = r"
| "ext_rev (Suc n) r = ext_rev n (sched_step r)"

definition round_word :: "int32 \<Rightarrow> nat \<Rightarrow> working \<Rightarrow> working" where
  "round_word x i = (\<lambda>(a, b, c, d, e).
     (safeAdd (leftrotate a 5)
        (safeAdd (round_f i b c d) (safeAdd e (safeAdd (round_k i) x))),
      a, leftrotate b 30, c, d))"

fun rounds_list :: "nat \<Rightarrow> int32 list \<Rightarrow> working \<Rightarrow> working" where
  "rounds_list i [] s = s"
| "rounds_list i (x # xs) s = rounds_list (Suc i) xs (round_word x i s)"

section \<open>Arithmetic of the engine\<close>

lemma split16: "push_bit 16 (signed_drop_bit 16 w) + (w AND 0xffff) = (w :: 32 word)"
proof -
  have "push_bit 16 (signed_drop_bit 16 w) = push_bit 16 (drop_bit 16 w)"
    by (rule bit_word_eqI) (auto simp: bit_push_bit_iff bit_signed_drop_bit_iff bit_drop_bit_eq)
  moreover have "w AND 0xffff = take_bit 16 w"
    using take_bit_eq_mask[of 16 w] by (simp add: mask_eq_exp_minus_1)
  ultimately show ?thesis by (simp add: bits_ident)
qed

lemma join16: "push_bit 16 (m :: 32 word) OR (l AND 0xffff) = push_bit 16 m + (l AND 0xffff)"
proof -
  have "l AND 0xffff = take_bit 16 l"
    using take_bit_eq_mask[of 16 l] by (simp add: mask_eq_exp_minus_1)
  moreover have "push_bit 16 m AND take_bit 16 l = 0"
    by (rule bit_word_eqI) (auto simp: bit_push_bit_iff bit_take_bit_iff bit_and_iff)
  ultimately show ?thesis by (simp add: disjunctive_add_eq_or)
qed

lemma safeAdd_eq: "safeAdd x y = x + y"
proof -
  define lsw where "lsw = (x AND 0xffff) + (y AND 0xffff)"
  have "safeAdd x y = push_bit 16 (signed_drop_bit 16 x + signed_drop_bit 16 y + signed_drop_bit 16 lsw) + (lsw AND 0xffff)"
    by (simp add: safeAdd_def Let_def lsw_def join16)
  also have "\<dots> = push_bit 16 (signed_drop_bit 16 x) + push_bit 16 (signed_drop_bit 16 y) + (push_bit 16 (signed_drop_bit 16 lsw) + (lsw AND 0xffff))"
    by (simp add: push_bit_add)
  also have "\<dots> = push_bit 16 (signed_drop_bit 16 x) + push_bit 16 (signed_drop_bit 16 y) + lsw"
    by (simp only: split16)
  also have "\<dots> = (push_bit 16 (signed_drop_bit 16 x) + (x AND 0xffff)) + (push_bit 16 (signed_drop_bit 16 y) + (y AND 0xffff))"
    by (simp add: lsw_def)
  also have "\<dots> = x + y" by (simp only: split16)
  finally show ?thesis .
qed

lemma leftrotate_eq: "0 < c \<Longrightarrow> c < 32 \<Longrightarrow> leftrotate x c = word_rotl c x"
proof (rule bit_word_eqI)
  fix n assume c: "0 < c" "c < 32" and n: "n < LENGTH(32)"
  have m: "(n + 32 - c) mod 32 = (if c \<le> n then n - c else 32 + n - c)"
    using c n by (auto simp: le_mod_geq)
  show "bit (leftrotate x c) n = bit (word_rotl c x) n"
    using c n by (auto simp: leftrotate_def bit_or_iff bit_push_bit_iff bit_drop_bit_eq bit_word_rotl_iff m dest: bit_imp_le_length)
qed

section \<open>The schedule does not depend on what the array held\<close>

lemma length_slice: "length (slice p pos n) = n"
  by (simp add: slice_def)

lemma byte_at_slice: "i < n \<Longrightarrow> byte_at (slice p pos n) i = byte_at p (pos + i)"
  by (simp add: slice_def byte_at_def)

lemma nth_slice: "i < n \<Longrightarrow> slice p pos n ! i = byte_at p (pos + i)"
  by (simp add: slice_def)

lemma length_writeUint32BE: "length (writeUint32BE v out off) = length out"
  by (simp add: writeUint32BE_def)

lemma fold_upd_length: "length (fold (\<lambda>i w. w[i := g i w]) is w) = length w"
  by (induction "is" arbitrary: w) auto

lemma length_load_words: "length (load_words w p pos) = length w"
  unfolding load_words_def by (rule fold_upd_length)

lemma length_expand_words: "length (expand_words w) = length w"
  unfolding expand_words_def by (rule fold_upd_length)

lemma fold_upd_const_nth:
  "i < length w \<Longrightarrow> fold (\<lambda>i w. w[i := g i]) [a..<b] w ! i = (if a \<le> i \<and> i < b then g i else w ! i)"
proof (induction b)
  case 0 then show ?case by simp
next
  case (Suc b)
  show ?case
  proof (cases "a \<le> b")
    case True
    show ?thesis
    proof (cases "i = b")
      case True
      then show ?thesis using Suc \<open>a \<le> b\<close> by (simp add: fold_upd_length)
    next
      case False
      then show ?thesis using Suc \<open>a \<le> b\<close> by (simp add: fold_upd_length)
    qed
  next
    case False then show ?thesis by auto
  qed
qed

lemma load_words_nth:
  "i < length w \<Longrightarrow> load_words w p pos ! i = (if i < 16 then readUint32BE p (pos + i * 4) else w ! i)"
  unfolding load_words_def by (simp add: fold_upd_const_nth)

lemma length_expand_upto: "length (expand_upto n w) = length w"
  unfolding expand_upto_def by (rule fold_upd_length)

lemma expand_upto_Suc: "16 \<le> n \<Longrightarrow> expand_upto (Suc n) w =
   (let u = expand_upto n w in u[n := leftrotate (u ! (n - 3) XOR u ! (n - 8) XOR u ! (n - 14) XOR u ! (n - 16)) 1])"
  by (simp add: expand_upto_def Let_def)

lemma expand_upto_agree:
  assumes "length w = length w'" "\<forall>i<16. w ! i = w' ! i"
  shows "16 \<le> n \<Longrightarrow> n \<le> length w \<Longrightarrow> \<forall>i<n. expand_upto n w ! i = expand_upto n w' ! i"
proof (induction n)
  case 0 then show ?case by simp
next
  case (Suc n)
  show ?case
  proof (cases "n = 15")
    case True
    then show ?thesis using assms by (simp add: expand_upto_def)
  next
    case False
    with Suc.prems have n: "16 \<le> n" "n < length w" by auto
    with Suc.IH have IH: "\<forall>i<n. expand_upto n w ! i = expand_upto n w' ! i" by simp
    have "n - 3 < n" "n - 8 < n" "n - 14 < n" "n - 16 < n" using n by auto
    with IH have eq: "expand_upto n w ! (n - 3) = expand_upto n w' ! (n - 3)"
      "expand_upto n w ! (n - 8) = expand_upto n w' ! (n - 8)"
      "expand_upto n w ! (n - 14) = expand_upto n w' ! (n - 14)"
      "expand_upto n w ! (n - 16) = expand_upto n w' ! (n - 16)" by blast+
    show ?thesis
    proof (intro allI impI)
      fix i assume "i < Suc n"
      show "expand_upto (Suc n) w ! i = expand_upto (Suc n) w' ! i"
      proof (cases "i = n")
        case True
        then show ?thesis using n assms(1) by (simp add: expand_upto_Suc Let_def eq length_expand_upto)
      next
        case False
        with \<open>i < Suc n\<close> have "i < n" by simp
        then show ?thesis using n IH False by (simp add: expand_upto_Suc Let_def)
      qed
    qed
  qed
qed

lemma expand_words_cong:
  assumes "length w = 80" "length w' = 80" "\<forall>i<16. w ! i = w' ! i"
  shows "expand_words w = expand_words w'"
proof -
  have e: "expand_words w = expand_upto 80 w" "expand_words w' = expand_upto 80 w'"
    by (simp_all only: expand_words_def expand_upto_def)
  have "\<forall>i<80. expand_upto 80 w ! i = expand_upto 80 w' ! i"
    using expand_upto_agree[of w w' 80] assms by simp
  then show ?thesis unfolding e
    by (intro nth_equalityI) (simp_all add: length_expand_upto assms)
qed

lemma readUint32BE_slice: "off + 4 \<le> n \<Longrightarrow> readUint32BE (slice p pos n) off = readUint32BE p (pos + off)"
  by (simp add: readUint32BE_def byte_at_slice add.assoc)

lemma load_words_cong:
  assumes "length w = 80" "length w' = 80"
  shows "\<forall>i<16. load_words w p pos ! i = load_words w' (slice p pos 64) 0 ! i"
  using assms by (auto simp: load_words_nth readUint32BE_slice)

lemma hashBlock_compress:
  assumes "length w = 80"
  shows "snd (hashBlock w v p pos) = compress v (slice p pos 64)"
proof -
  have "expand_words (load_words w p pos) = expand_words (load_words (replicate 80 0) (slice p pos 64) 0)"
    by (rule expand_words_cong) (use assms load_words_cong[of w "replicate 80 0" p pos] in \<open>simp_all add: length_load_words\<close>)
  then show ?thesis by (simp add: hashBlock_def compress_def Let_def)
qed

lemma length_fst_hashBlock: "length (fst (hashBlock w v p pos)) = length w"
  by (simp add: hashBlock_def Let_def length_expand_words length_load_words)

lemma length_accumulate: "length (accumulate v x) = length v"
  by (cases x) (simp add: accumulate_def Let_def)

lemma length_compress: "length (compress v blk) = length v"
  by (simp add: compress_def hashBlock_def Let_def length_accumulate)

section \<open>The loops in closed form\<close>

lemma take_slice: "take k (slice p pos n) = slice p pos (min k n)"
  by (simp add: slice_def take_map min_def)

lemma drop_slice: "drop k (slice p pos n) = slice p (pos + k) (n - k)"
proof (cases "k \<le> n")
  case True
  then have "k + pos + (n - k) = n + pos" by simp
  then show ?thesis by (simp add: slice_def drop_map add.commute add.left_commute)
next
  case False
  then show ?thesis by (simp add: slice_def)
qed

lemma slice_add: "slice p pos (a + b) = slice p pos a @ slice p (pos + a) b"
proof -
  have "[pos..<pos + a + b] = [pos..<pos + a] @ [pos + a..<pos + a + b]"
    by (rule upt_add_eq_append) simp
  then show ?thesis by (simp only: slice_def map_append add.assoc [symmetric])
qed

lemma slice_self: "slice xs 0 (length xs) = xs"
  by (rule nth_equalityI) (simp_all add: slice_def byte_at_def)

lemma hashBlocks_eq:
  "length w = 80 \<Longrightarrow>
   \<exists>w'. length w' = 80 \<and>
     hashBlocks w v p pos len = (w', foldl compress v (blocks_of (slice p pos len)), pos + 64 * (len div 64))"
proof (induction w v p pos len rule: hashBlocks.induct)
  case (1 w v p pos len)
  show ?case
  proof (cases "64 \<le> len")
    case False
    then show ?thesis using "1.prems"
      by (simp add: hashBlocks.simps[of w v p pos len] blocks_of.simps[of "slice p pos len"] length_slice)
  next
    case True
    obtain w1 v1 where hb: "hashBlock w v p pos = (w1, v1)" by fastforce
    have w1: "length w1 = 80" using length_fst_hashBlock[of w v p pos] hb "1.prems" by simp
    have v1: "v1 = compress v (slice p pos 64)"
      using hashBlock_compress[OF "1.prems", of v p pos] hb by simp
    from "1.IH"[OF True hb[symmetric] w1]
    obtain w' where w': "length w' = 80"
      "hashBlocks w1 v1 p (pos + 64) (len - 64) =
        (w', foldl compress v1 (blocks_of (slice p (pos + 64) (len - 64))), pos + 64 + 64 * ((len - 64) div 64))"
      by blast
    have b: "blocks_of (slice p pos len) = slice p pos 64 # blocks_of (slice p (pos + 64) (len - 64))"
      using True by (simp add: blocks_of.simps[of "slice p pos len"] length_slice take_slice drop_slice min_def)
    have d: "pos + 64 + 64 * ((len - 64) div 64) = pos + 64 * (len div 64)"
      using True by (simp add: le_div_geq)
    show ?thesis
      using True hb w' by (simp add: hashBlocks.simps[of w v p pos len] b v1 d)
  qed
qed

lemma fill_buffer_eq:
  "bl \<le> 64 \<Longrightarrow>
   \<exists>buf'. fill_buffer buf bl data pos n =
       (buf', bl + min (64 - bl) n, pos + min (64 - bl) n, n - min (64 - bl) n) \<and>
     length buf' = length buf \<and>
     (\<forall>i<length buf. buf' ! i =
        (if bl \<le> i \<and> i < bl + min (64 - bl) n then byte_at data (pos + (i - bl)) else buf ! i))"
proof (induction buf bl data pos n rule: fill_buffer.induct)
  case (1 buf bl data dataPos dataLength)
  show ?case
  proof (cases "bl < BLOCK_SIZE \<and> 0 < dataLength")
    case False
    then have "min (64 - bl) dataLength = 0" using "1.prems" by (auto simp: BLOCK_SIZE_def)
    then show ?thesis using False
      by (subst fill_buffer.simps) auto
  next
    case True
    then have bl: "bl + 1 \<le> 64" by (simp add: BLOCK_SIZE_def)
    from "1.IH"[OF True bl]
    obtain buf' where IH:
      "fill_buffer (buf[bl := byte_at data dataPos]) (bl + 1) data (dataPos + 1) (dataLength - 1) =
         (buf', bl + 1 + min (64 - (bl + 1)) (dataLength - 1), dataPos + 1 + min (64 - (bl + 1)) (dataLength - 1),
          dataLength - 1 - min (64 - (bl + 1)) (dataLength - 1))"
      "length buf' = length buf"
      "\<forall>i<length buf. buf' ! i =
        (if bl + 1 \<le> i \<and> i < bl + 1 + min (64 - (bl + 1)) (dataLength - 1)
         then byte_at data (dataPos + 1 + (i - (bl + 1))) else (buf[bl := byte_at data dataPos]) ! i)"
      by auto
    have k: "min (64 - bl) dataLength = 1 + min (64 - (bl + 1)) (dataLength - 1)"
      using True by (auto simp: BLOCK_SIZE_def min_def)
    have nth: "\<forall>i<length buf. buf' ! i =
        (if bl \<le> i \<and> i < bl + min (64 - bl) dataLength then byte_at data (dataPos + (i - bl)) else buf ! i)"
    proof (intro allI impI)
      fix i assume i: "i < length buf"
      show "buf' ! i = (if bl \<le> i \<and> i < bl + min (64 - bl) dataLength then byte_at data (dataPos + (i - bl)) else buf ! i)"
      proof (cases "i = bl")
        case True
        then show ?thesis using IH(3) i k by simp
      next
        case False
        have "bl + 1 \<le> i \<Longrightarrow> dataPos + 1 + (i - (bl + 1)) = dataPos + (i - bl)" by simp
        then show ?thesis using IH(3) i k False by auto
      qed
    qed
    show ?thesis
      using True IH(1,2) nth k
      by (simp add: fill_buffer.simps[of buf bl data dataPos dataLength])
  qed
qed

lemma copy_tail_eq:
  "\<exists>buf'. copy_tail buf bl data pos n = (buf', bl + n, pos + n, 0) \<and>
     length buf' = length buf \<and>
     (\<forall>i<length buf. buf' ! i =
        (if bl \<le> i \<and> i < bl + n then byte_at data (pos + (i - bl)) else buf ! i))"
proof (induction buf bl data pos n rule: copy_tail.induct)
  case (1 buf bl data dataPos dataLength)
  show ?case
  proof (cases "0 < dataLength")
    case False
    then show ?thesis
      by (subst copy_tail.simps) auto
  next
    case True
    from "1.IH"[OF True]
    obtain buf' where IH:
      "copy_tail (buf[bl := byte_at data dataPos]) (bl + 1) data (dataPos + 1) (dataLength - 1) =
         (buf', bl + 1 + (dataLength - 1), dataPos + 1 + (dataLength - 1), 0)"
      "length buf' = length buf"
      "\<forall>i<length buf. buf' ! i =
        (if bl + 1 \<le> i \<and> i < bl + 1 + (dataLength - 1)
         then byte_at data (dataPos + 1 + (i - (bl + 1))) else (buf[bl := byte_at data dataPos]) ! i)"
      by auto
    have nth: "\<forall>i<length buf. buf' ! i =
        (if bl \<le> i \<and> i < bl + dataLength then byte_at data (dataPos + (i - bl)) else buf ! i)"
    proof (intro allI impI)
      fix i assume i: "i < length buf"
      show "buf' ! i = (if bl \<le> i \<and> i < bl + dataLength then byte_at data (dataPos + (i - bl)) else buf ! i)"
      proof (cases "i = bl")
        case True
        then show ?thesis using IH(3) i \<open>0 < dataLength\<close> by simp
      next
        case False
        have "bl + 1 \<le> i \<Longrightarrow> dataPos + 1 + (i - (bl + 1)) = dataPos + (i - bl)" by simp
        then show ?thesis using IH(3) i False \<open>0 < dataLength\<close> by auto
      qed
    qed
    show ?thesis
      using True IH(1,2) nth
      by (simp add: copy_tail.simps[of buf bl data dataPos dataLength])
  qed
qed

section \<open>What \<open>update\<close> does to a message\<close>

lemma blocks_of_short: "length b < 64 \<Longrightarrow> blocks_of b = []"
  by (simp add: blocks_of.simps[of b])

lemma blocks_of_single: "length b = 64 \<Longrightarrow> blocks_of b = [b]"
  by (simp add: blocks_of.simps[of b] blocks_of_short)

lemma blocks_append: "length a mod 64 = 0 \<Longrightarrow> blocks_of (a @ b) = blocks_of a @ blocks_of b"
proof (induction a rule: blocks_of.induct)
  case (1 xs)
  show ?case
  proof (cases "length xs < 64")
    case True
    with "1.prems" have "xs = []" by simp
    then show ?thesis by (simp add: blocks_of_short)
  next
    case False
    then have m: "length (drop 64 xs) mod 64 = 0" using "1.prems" by (simp add: le_mod_geq)
    have "blocks_of (xs @ b) = take 64 xs # blocks_of (drop 64 xs @ b)"
      using False by (simp add: blocks_of.simps[of "xs @ b"])
    also have "\<dots> = take 64 xs # blocks_of (drop 64 xs) @ blocks_of b"
      using "1.IH"[OF False m] by simp
    also have "\<dots> = blocks_of xs @ blocks_of b"
      using False by (simp add: blocks_of.simps[of xs])
    finally show ?thesis .
  qed
qed

lemma length_foldl_compress: "length (foldl compress v bs) = length v"
  by (induction bs arbitrary: v) (simp_all add: length_compress)

lemma buf_window:
  assumes "length buf' = length buf"
    and "\<forall>i<length buf. buf' ! i = (if bl \<le> i \<and> i < bl + k then byte_at d (pos + (i - bl)) else buf ! i)"
    and "bl + k \<le> length buf"
  shows "take (bl + k) buf' = take bl buf @ slice d pos k"
proof (rule nth_equalityI)
  show "length (take (bl + k) buf') = length (take bl buf @ slice d pos k)"
    using assms by (simp add: length_slice)
next
  fix i assume "i < length (take (bl + k) buf')"
  then have i: "i < bl + k" by simp
  then have "i < length buf" using assms(3) by simp
  with assms(2) have e: "buf' ! i = (if bl \<le> i \<and> i < bl + k then byte_at d (pos + (i - bl)) else buf ! i)" by blast
  show "take (bl + k) buf' ! i = (take bl buf @ slice d pos k) ! i"
    using i e assms(3) by (auto simp: nth_append nth_slice)
qed

lemma slice_in_range: "pos + n \<le> length p \<Longrightarrow> slice p pos n = take n (drop pos p)"
  by (rule nth_equalityI) (simp_all add: length_slice nth_slice byte_at_def)

lemma update_rest_absorbed:
  assumes wf: "wf h2" and nf: "\<not> finished h2" and bl0: "bufferLength h2 = 0"
    and M: "length M mod 64 = 0" and st: "state h2 = foldl compress v0 (blocks_of M)"
    and k: "k mod 64 = 0" and bh: "bytesHashed h2 = k + length M + r"
  shows "absorbed_from v0 k (update_rest h2 d pos r) (M @ slice d pos r)"
proof -
  define pos3 where "pos3 = pos + 64 * (r div 64)"
  have t80: "length (temp h2) = 80" using wf by (simp add: wf_def)
  obtain w3 where w3: "length w3 = 80" and
    h3: "(if BLOCK_SIZE \<le> r
               then (case hashBlocks (temp h2) (state h2) d pos r of
                       (w, v, dataPos) \<Rightarrow>
                         (h2\<lparr>state := v, temp := w\<rparr>, dataPos, r mod BLOCK_SIZE))
               else (h2, pos, r)) =
           (h2\<lparr>state := foldl compress (state h2) (blocks_of (slice d pos r)), temp := w3\<rparr>, pos3, r mod 64)"
  proof (cases "64 \<le> r")
    case True
    from hashBlocks_eq[OF t80, of "state h2" d pos r] obtain w' where
      "length w' = 80" "hashBlocks (temp h2) (state h2) d pos r =
          (w', foldl compress (state h2) (blocks_of (slice d pos r)), pos + 64 * (r div 64))" by blast
    then show ?thesis using True that[of w'] by (simp add: BLOCK_SIZE_def pos3_def)
  next
    case False
    then show ?thesis using that[of "temp h2"] t80
      by (simp add: BLOCK_SIZE_def pos3_def blocks_of_short length_slice)
  qed
  define h3r where "h3r = h2\<lparr>state := foldl compress (state h2) (blocks_of (slice d pos r)), temp := w3\<rparr>"
  from copy_tail_eq[of "buffer h3r" "bufferLength h3r" d pos3 "r mod 64"]
  obtain buf' where ct: "copy_tail (buffer h3r) (bufferLength h3r) d pos3 (r mod 64) = (buf', bufferLength h3r + r mod 64, pos3 + r mod 64, 0)"
    and len: "length buf' = length (buffer h3r)"
    and nth: "\<forall>i<length (buffer h3r). buf' ! i =
        (if bufferLength h3r \<le> i \<and> i < bufferLength h3r + r mod 64 then byte_at d (pos3 + (i - bufferLength h3r)) else buffer h3r ! i)"
    by blast
  have res: "update_rest h2 d pos r = h3r\<lparr>buffer := buf', bufferLength := r mod 64\<rparr>"
    unfolding update_rest_def h3 using ct bl0 by (simp add: h3r_def)
  have b128: "length (buffer h2) = 128" using wf by (simp add: wf_def)
  have tk: "take (0 + r mod 64) buf' = take 0 (buffer h3r) @ slice d pos3 (r mod 64)"
    by (rule buf_window[OF len]) (use nth bl0 b128 in \<open>simp_all add: h3r_def\<close>)
  have r: "r = 64 * (r div 64) + r mod 64" by simp
  have dr: "drop (r - r mod 64) (slice d pos r) = slice d pos3 (r mod 64)"
  proof -
    have "r - r mod 64 = 64 * (r div 64)" "r - 64 * (r div 64) = r mod 64"
      by (simp_all add: minus_mod_eq_mult_div minus_mult_div_eq_mod)
    then show ?thesis by (simp add: drop_slice pos3_def)
  qed
  have "wf (update_rest h2 d pos r)"
    using wf w3 len by (simp add: res wf_def h3r_def length_foldl_compress)
  moreover have "\<not> finished (update_rest h2 d pos r)" using nf by (simp add: res h3r_def)
  moreover have "bytesHashed (update_rest h2 d pos r) = k + length (M @ slice d pos r)"
    using bh by (simp add: res h3r_def length_slice)
  moreover have lm: "length (M @ slice d pos r) mod 64 = r mod 64"
    using M by (simp add: length_slice mod_add_left_eq [symmetric])
  moreover have "take (r mod 64) (buffer (update_rest h2 d pos r)) =
      drop (length (M @ slice d pos r) - r mod 64) (M @ slice d pos r)"
  proof -
    have "length M + r - r mod 64 = length M + (r - r mod 64)" by simp
    then show ?thesis using tk dr by (simp add: res length_slice)
  qed
  moreover have "state (update_rest h2 d pos r) = foldl compress v0 (blocks_of (M @ slice d pos r))"
    by (simp add: res h3r_def st blocks_append[OF M])
  ultimately show ?thesis
    using bl0 k by (simp add: absorbed_from_def res)
qed

lemma update_unfold:
  "\<not> finished h \<Longrightarrow>
   update h data n =
     (case update_fill (h\<lparr>bytesHashed := bytesHashed h + n\<rparr>) data n of
        (h2, p2, l2) \<Rightarrow> (Inr (), update_rest h2 data p2 l2))"
  unfolding update_def update_fill_def update_rest_def Let_def
  by (simp split: prod.splits)

lemma update_rest_0: "update_rest h d pos 0 = h\<lparr>buffer := buffer h, bufferLength := bufferLength h\<rparr>"
  by (simp add: update_rest_def BLOCK_SIZE_def copy_tail.simps[of _ _ _ _ 0])

lemma absorbed_split:
  assumes "absorbed_from v0 k h m"
  shows "m = take (length m - length m mod 64) m @ take (length m mod 64) (buffer h)"
    and "length (take (length m - length m mod 64) m) mod 64 = 0"
    and "blocks_of m = blocks_of (take (length m - length m mod 64) m)"
proof -
  let ?m0 = "take (length m - length m mod 64) m"
  let ?t = "take (length m mod 64) (buffer h)"
  show 1: "m = ?m0 @ ?t" using assms by (simp add: absorbed_from_def)
  show 2: "length ?m0 mod 64 = 0" by (simp add: minus_mod_eq_mult_div)
  have "length ?t < 64" using assms by (simp add: absorbed_from_def wf_def)
  then have "blocks_of (?m0 @ ?t) = blocks_of ?m0"
    using blocks_append[OF 2, of ?t] by (simp add: blocks_of_short)
  then show "blocks_of m = blocks_of ?m0" using 1 by simp
qed

lemma update_absorbed_from:
  assumes a: "absorbed_from v0 k h m"
  shows "\<exists>h'. update h d n = (Inr (), h') \<and> absorbed_from v0 k h' (m @ slice d 0 n)"
proof -
  define bl where "bl = length m mod 64"
  define h1 where "h1 = h\<lparr>bytesHashed := bytesHashed h + n\<rparr>"
  define m0 where "m0 = take (length m - length m mod 64) m"
  define t where "t = take bl (buffer h)"
  have nf: "\<not> finished h" and wf: "wf h" and bh: "bytesHashed h = k + length m"
    and blh: "bufferLength h = bl" and st: "state h = foldl compress v0 (blocks_of m)"
    and k: "k mod 64 = 0"
    using a by (simp_all add: absorbed_from_def bl_def)
  have m: "m = m0 @ t" and m0: "length m0 mod 64 = 0" and bm: "blocks_of m = blocks_of m0"
    using absorbed_split[OF a] by (simp_all add: m0_def t_def bl_def)
  have lt: "length t = bl" using wf by (simp add: t_def wf_def bl_def)
  have bl64: "bl < 64" by (simp add: bl_def)
  have wf1: "wf h1" "\<not> finished h1" using wf nf by (simp_all add: h1_def wf_def)
  have u: "update h d n = (case update_fill h1 d n of (h2, p2, l2) \<Rightarrow> (Inr (), update_rest h2 d p2 l2))"
    using update_unfold[OF nf] by (simp add: h1_def)
  show ?thesis
  proof (cases "bl = 0")
    case True
    then have f: "update_fill h1 d n = (h1, 0, n)" using blh by (simp add: update_fill_def h1_def)
    have "absorbed_from v0 k (update_rest h1 d 0 n) (m @ slice d 0 n)"
      by (rule update_rest_absorbed[OF wf1])
         (use True blh st bh k in \<open>simp_all add: h1_def bl_def\<close>)
    then show ?thesis by (simp add: u f)
  next
    case False
    define kk where "kk = min (64 - bl) n"
    from fill_buffer_eq[of bl "buffer h1" d 0 n] bl64
    obtain buf1 where fb: "fill_buffer (buffer h1) bl d 0 n = (buf1, bl + kk, kk, n - kk)"
      and len1: "length buf1 = length (buffer h1)"
      and nth1: "\<forall>i<length (buffer h1). buf1 ! i =
          (if bl \<le> i \<and> i < bl + kk then byte_at d (0 + (i - bl)) else buffer h1 ! i)"
      by (auto simp: kk_def)
    have b128: "length (buffer h1) = 128" using wf1 by (simp add: wf_def)
    have tk: "take (bl + kk) buf1 = t @ slice d 0 kk"
      unfolding t_def using buf_window[OF len1 nth1] b128 bl64 by (simp add: kk_def h1_def)
    show ?thesis
    proof (cases "bl + kk = 64")
      case False
      then have kn: "kk = n" "bl + n < 64" using bl64 by (auto simp: kk_def min_def split: if_splits)
      have f: "update_fill h1 d n = (h1\<lparr>buffer := buf1, bufferLength := bl + n\<rparr>, n, 0)"
        using \<open>bl \<noteq> 0\<close> blh fb False kn by (simp add: update_fill_def h1_def BLOCK_SIZE_def)
      define h2 where "h2 = h1\<lparr>buffer := buf1, bufferLength := bl + n\<rparr>"
      have res: "update h d n = (Inr (), h2)"
        by (simp add: u f update_rest_0 h2_def)
      have lm: "length (m @ slice d 0 n) mod 64 = bl + n"
      proof -
        have "(length m + n) mod 64 = (length m mod 64 + n) mod 64" by (simp add: mod_add_left_eq)
        then show ?thesis using kn by (simp add: length_slice bl_def)
      qed
      have dr: "drop (length (m @ slice d 0 n) - (bl + n)) (m @ slice d 0 n) = t @ slice d 0 n"
      proof -
        have "length m = length m0 + bl" using m lt by simp
        then show ?thesis using m by (simp add: length_slice)
      qed
      have bo: "blocks_of (m @ slice d 0 n) = blocks_of m"
      proof -
        have "length (t @ slice d 0 n) < 64" using kn lt by (simp add: length_slice)
        then have "blocks_of (m0 @ (t @ slice d 0 n)) = blocks_of m0"
          using blocks_append[OF m0, of "t @ slice d 0 n"] by (simp add: blocks_of_short)
        then show ?thesis using m bm by simp
      qed
      have "absorbed_from v0 k h2 (m @ slice d 0 n)"
        unfolding absorbed_from_def lm
        using wf1 len1 bh tk kn dr bo st k
        by (simp add: h2_def wf_def h1_def length_slice)
      then show ?thesis using res by simp
    next
      case True
      define blk where "blk = t @ slice d 0 kk"
      have lblk: "length blk = 64" using True lt by (simp add: blk_def length_slice)
      have sl: "slice buf1 0 64 = blk"
        using slice_in_range[of 0 64 buf1] len1 b128 tk True by (simp add: blk_def)
      have t80: "length (temp h1) = 80" using wf1 by (simp add: wf_def)
      from hashBlocks_eq[OF t80, of "state h1" buf1 0 64]
      obtain w' where w': "length w' = 80"
        and hb: "hashBlocks (temp h1) (state h1) buf1 0 64 = (w', compress (state h1) blk, 64)"
        by (auto simp: sl blocks_of_single[OF lblk])
      define h2 where "h2 = h1\<lparr>state := compress (state h1) blk, temp := w', buffer := buf1, bufferLength := 0\<rparr>"
      have f: "update_fill h1 d n = (h2, kk, n - kk)"
        using \<open>bl \<noteq> 0\<close> blh fb True hb by (simp add: update_fill_def h1_def BLOCK_SIZE_def h2_def)
      have wf2: "wf h2" "\<not> finished h2"
        using wf1 w' len1 by (simp_all add: h2_def wf_def length_compress)
      have M: "length (m @ slice d 0 kk) mod 64 = 0"
      proof -
        have "m @ slice d 0 kk = m0 @ blk" using m by (simp add: blk_def)
        then show ?thesis using m0 lblk by (simp add: mod_add_left_eq [symmetric])
      qed
      have st2: "state h2 = foldl compress v0 (blocks_of (m @ slice d 0 kk))"
      proof -
        have "m @ slice d 0 kk = m0 @ blk" using m by (simp add: blk_def)
        then have "blocks_of (m @ slice d 0 kk) = blocks_of m0 @ [blk]"
          using blocks_append[OF m0, of blk] by (simp add: blocks_of_single[OF lblk])
        then show ?thesis using st bm by (simp add: h2_def h1_def)
      qed
      have kn: "kk \<le> n" by (simp add: kk_def)
      have bh2: "bytesHashed h2 = k + length (m @ slice d 0 kk) + (n - kk)"
        using bh kn by (simp add: h2_def h1_def length_slice)
      have "absorbed_from v0 k (update_rest h2 d kk (n - kk)) ((m @ slice d 0 kk) @ slice d kk (n - kk))"
        by (rule update_rest_absorbed[OF wf2 _ M st2 k bh2]) (simp add: h2_def)
      moreover have "slice d 0 kk @ slice d kk (n - kk) = slice d 0 n"
        using slice_add[of d 0 kk "n - kk"] kn by simp
      ultimately show ?thesis by (simp add: u f)
    qed
  qed
qed

section \<open>What \<open>finish\<close> does\<close>

lemma finish_unfold:
  "finish h out = (let h' = (if \<not> finished h then finalize h else h) in (h', write_digest (state h') out))"
  by (simp add: finish_def finalize_def pad_buffer_def write_digest_def Let_def
      padLength_of_def bitLenHi_of_def bitLenLo_of_def)

lemma length_be32: "length (be32 v) = 4"
  by (simp add: be32_def)

lemma nth_writeUint32BE:
  "i < length out \<Longrightarrow>
   writeUint32BE v out off ! i = (if off \<le> i \<and> i < off + 4 then be32 v ! (i - off) else out ! i)"
proof -
  assume i: "i < length out"
  consider "i < off" | "i = off" | "i = off + 1" | "i = off + 2" | "i = off + 3" | "off + 4 \<le> i"
    by linarith
  then show ?thesis
    using i by cases (simp_all add: writeUint32BE_def be32_def)
qed

lemma length_pad_buffer: "length (pad_buffer h) = length (buffer h)"
  by (simp add: pad_buffer_def length_writeUint32BE fold_upd_length)

lemma nth_pad_buffer:
  assumes "i < length (buffer h)"
  shows "pad_buffer h ! i =
    (if padLength_of h - 4 \<le> i \<and> i < padLength_of h - 4 + 4 then be32 (bitLenLo_of h) ! (i - (padLength_of h - 4))
     else if padLength_of h - 8 \<le> i \<and> i < padLength_of h - 8 + 4 then be32 (bitLenHi_of h) ! (i - (padLength_of h - 8))
     else if bufferLength h + 1 \<le> i \<and> i < padLength_of h - 8 then 0
     else if i = bufferLength h then 0x80 else buffer h ! i)"
  using assms
  by (simp add: pad_buffer_def nth_writeUint32BE length_writeUint32BE fold_upd_length
      fold_upd_const_nth nth_list_update)

lemma pad_buffer_layout:
  assumes len: "length (buffer h) = 128" and left: "bufferLength h = bytesHashed h mod 64"
  shows "pad_buffer h =
     take (bufferLength h) (buffer h) @ [0x80] @
     replicate (padLength_of h - 9 - bufferLength h) 0 @
     be32 (bitLenHi_of h) @ be32 (bitLenLo_of h) @ drop (padLength_of h) (buffer h)"
    (is "_ = ?P")
proof (rule nth_equalityI)
  define pl where "pl = padLength_of h"
  define l where "l = bufferLength h"
  have pl: "l + 9 \<le> pl" "pl \<le> 128"
    using left by (auto simp: pl_def l_def padLength_of_def)
  show L: "length (pad_buffer h) = length ?P"
    using pl len by (simp add: length_pad_buffer length_be32 pl_def [symmetric] l_def [symmetric])
  fix i assume "i < length (pad_buffer h)"
  then have i: "i < 128" using len by (simp add: length_pad_buffer)
  have lens: "length (take l (buffer h)) = l" using pl len by simp
  consider "i < l" | "i = l" | "l < i \<and> i < pl - 8" | "pl - 8 \<le> i \<and> i < pl - 4"
    | "pl - 4 \<le> i \<and> i < pl" | "pl \<le> i" by linarith
  then show "pad_buffer h ! i = ?P ! i"
  proof cases
    case 1
    then show ?thesis using i len pl
      by (auto simp: nth_pad_buffer pl_def [symmetric] l_def [symmetric] nth_append)
  next
    case 2
    then show ?thesis using i len pl
      by (auto simp: nth_pad_buffer pl_def [symmetric] l_def [symmetric] nth_append)
  next
    case 3
    then have "i - l - 1 < pl - 9 - l" using pl by linarith
    then show ?thesis using 3 i len pl
      by (auto simp: nth_pad_buffer pl_def [symmetric] l_def [symmetric] nth_append)
  next
    case 4
    then have e: "i - l - 1 - (pl - 9 - l) = i - (pl - 8)" "i - (pl - 8) < 4" using pl by linarith+
    have "\<not> i - l - 1 < pl - 9 - l" using 4 pl by linarith
    then show ?thesis using 4 i len pl e
      by (auto simp: nth_pad_buffer pl_def [symmetric] l_def [symmetric] nth_append length_be32)
  next
    case 5
    then have e: "i - l - 1 - (pl - 9 - l) - 4 = i - (pl - 4)" "i - (pl - 4) < 4"
      "\<not> i - l - 1 - (pl - 9 - l) < 4" using pl by linarith+
    have "\<not> i - l - 1 < pl - 9 - l" using 5 pl by linarith
    then show ?thesis using 5 i len pl e
      by (auto simp: nth_pad_buffer pl_def [symmetric] l_def [symmetric] nth_append length_be32)
  next
    case 6
    then have e: "\<not> i - l - 1 - (pl - 9 - l) < 4" "\<not> i - l - 1 - (pl - 9 - l) - 4 < 4"
      "pl + (i - l - 1 - (pl - 9 - l) - 4 - 4) = i" using pl by linarith+
    have "\<not> i - l - 1 < pl - 9 - l" using 6 pl by linarith
    then show ?thesis using 6 i len pl e
      by (auto simp: nth_pad_buffer pl_def [symmetric] l_def [symmetric] nth_append length_be32)
  qed
qed

lemma finalize_eq:
  assumes "length (temp h) = 80" "padLength_of h \<le> length (buffer h)"
  shows "\<exists>w. length w = 80 \<and>
    finalize h = h\<lparr>state := foldl compress (state h) (blocks_of (take (padLength_of h) (pad_buffer h))),
                   temp := w, buffer := pad_buffer h, finished := True\<rparr>"
proof -
  have s: "slice (pad_buffer h) 0 (padLength_of h) = take (padLength_of h) (pad_buffer h)"
    using slice_in_range[of 0 "padLength_of h" "pad_buffer h"] assms(2) by (simp add: length_pad_buffer)
  from hashBlocks_eq[OF assms(1), of "state h" "pad_buffer h" 0 "padLength_of h"]
  obtain w where "length w = 80"
    "hashBlocks (temp h) (state h) (pad_buffer h) 0 (padLength_of h) =
       (w, foldl compress (state h) (blocks_of (take (padLength_of h) (pad_buffer h))), 0 + 64 * (padLength_of h div 64))"
    unfolding s by blast
  then show ?thesis by (auto simp: finalize_def)
qed

lemma take_pad_buffer:
  assumes len: "length (buffer h) = 128" and left: "bufferLength h = bytesHashed h mod 64"
  shows "take (padLength_of h) (pad_buffer h) =
     take (bufferLength h) (buffer h) @ [0x80] @
     replicate (padLength_of h - 9 - bufferLength h) 0 @
     be32 (bitLenHi_of h) @ be32 (bitLenLo_of h)"
proof -
  have pl: "bufferLength h + 9 \<le> padLength_of h" "padLength_of h \<le> 128"
    using left by (auto simp: padLength_of_def)
  define A where "A = take (bufferLength h) (buffer h) @ [0x80] @
     replicate (padLength_of h - 9 - bufferLength h) 0 @
     be32 (bitLenHi_of h) @ be32 (bitLenLo_of h)"
  have L: "length A = padLength_of h"
    using pl len by (simp add: A_def length_be32)
  have "pad_buffer h = A @ drop (padLength_of h) (buffer h)"
    by (simp add: pad_buffer_layout[OF len left] A_def)
  then have "take (padLength_of h) (pad_buffer h) = A" using L by simp
  then show ?thesis by (simp add: A_def)
qed

lemma absorbed_from_finalize_state:
  assumes "absorbed_from v0 k h m"
  shows "state (finalize h) = foldl compress v0 (blocks_of (m @ padding (k + length m)))"
proof -
  define m0 where "m0 = take (length m - length m mod 64) m"
  define T where "T = take (padLength_of h) (pad_buffer h)"
  have wf: "wf h" and bh: "bytesHashed h = k + length m" and bl: "bufferLength h = length m mod 64"
    and st: "state h = foldl compress v0 (blocks_of m)" and k: "k mod 64 = 0"
    using assms by (simp_all add: absorbed_from_def)
  have len: "length (buffer h) = 128" "length (temp h) = 80" using wf by (simp_all add: wf_def)
  have km: "(k + length m) mod 64 = length m mod 64"
    using k by (simp add: mod_add_left_eq [symmetric])
  have left: "bufferLength h = bytesHashed h mod 64" using bh bl km by simp
  have m: "m = m0 @ take (length m mod 64) (buffer h)" and m0: "length m0 mod 64 = 0"
    and bm: "blocks_of m = blocks_of m0"
    using absorbed_split[OF assms] by (simp_all add: m0_def)
  have pl: "padLength_of h \<le> length (buffer h)" using len by (simp add: padLength_of_def)
  have z: "padLength_of h - 9 - bufferLength h =
      (if (k + length m) mod 64 < 56 then 55 else 119) - (k + length m) mod 64"
    using bh bl km by (simp add: padLength_of_def)
  have T: "T = take (length m mod 64) (buffer h) @ padding (k + length m)"
    unfolding T_def take_pad_buffer[OF len(1) left] padding_def z
    using bh bl by (simp add: bitLenHi_of_def bitLenLo_of_def)
  have mT: "m0 @ T = m @ padding (k + length m)"
    using m T by (metis append_assoc)
  from finalize_eq[OF len(2) pl]
  have "state (finalize h) = foldl compress (state h) (blocks_of T)"
    by (auto simp: T_def)
  also have "\<dots> = foldl compress v0 (blocks_of m0 @ blocks_of T)"
    by (simp add: st bm)
  also have "\<dots> = foldl compress v0 (blocks_of (m0 @ T))"
    by (simp add: blocks_append[OF m0])
  finally show ?thesis by (simp add: mT)
qed

lemma absorbed_finalize_state:
  assumes "absorbed h m"
  shows "state (finalize h) = sha1_state m"
  using absorbed_from_finalize_state[of H0 0 h m] assms by (simp add: absorbed_def sha1_state_def)

lemma absorbed_unfinished: "absorbed h m \<Longrightarrow> \<not> finished h"
  by (simp add: absorbed_def absorbed_from_def)

lemma update_absorbed:
  assumes "absorbed h m"
  shows "\<exists>h'. update h d n = (Inr (), h') \<and> absorbed h' (m @ slice d 0 n)"
  using update_absorbed_from[of H0 0 h m d n] assms by (simp add: absorbed_def)

lemma finish_absorbed:
  assumes "absorbed h m"
  shows "snd (finish h out) = write_digest (sha1_state m) out"
proof -
  have "\<not> finished h" using assms by (rule absorbed_unfinished)
  then show ?thesis
    by (simp add: finish_unfold Let_def absorbed_finalize_state[OF assms])
qed

lemma length_sha1_state: "length (sha1_state m) = 5"
  by (simp add: sha1_state_def length_foldl_compress H0_def)

lemma nth_digest_bytes:
  "i < 4 * length v \<Longrightarrow> digest_bytes v ! i = be32 (v ! (i div 4)) ! (i mod 4)"
proof (induction v arbitrary: i)
  case Nil then show ?case by simp
next
  case (Cons x xs)
  show ?case
  proof (cases "i < 4")
    case True
    then show ?thesis by (simp add: digest_bytes_def nth_append length_be32)
  next
    case False
    then have i: "i - 4 < 4 * length xs" "(i - 4) div 4 = i div 4 - 1" "(i - 4) mod 4 = i mod 4" "0 < i div 4"
      using Cons.prems by (auto simp: le_div_geq le_mod_geq)
    have "digest_bytes (x # xs) ! i = digest_bytes xs ! (i - 4)"
      using False by (simp add: digest_bytes_def nth_append length_be32)
    then show ?thesis using Cons.IH[OF i(1)] i by (simp add: nth_Cons')
  qed
qed

lemma length_digest_bytes: "length (digest_bytes v) = 4 * length v"
  by (induction v) (simp_all add: digest_bytes_def length_be32)

lemma length_write_words: "length (write_words n v out) = length out"
  by (induction n) (simp_all add: write_words_def length_writeUint32BE)

lemma nth_write_words:
  "i < length out \<Longrightarrow>
   write_words n v out ! i = (if i < 4 * n then be32 (v ! (i div 4)) ! (i mod 4) else out ! i)"
proof (induction n)
  case 0 then show ?case by (simp add: write_words_def)
next
  case (Suc n)
  have s: "write_words (Suc n) v out = writeUint32BE (v ! n) (write_words n v out) (n * 4)"
    by (simp add: write_words_def)
  show ?case
  proof (cases "n * 4 \<le> i \<and> i < n * 4 + 4")
    case True
    then have "i div 4 = n" "i - n * 4 = i mod 4" by presburger+
    then show ?thesis using True Suc.prems
      by (simp add: s nth_writeUint32BE length_write_words)
  next
    case False
    then show ?thesis using Suc
      by (auto simp: s nth_writeUint32BE length_write_words)
  qed
qed

lemma write_digest_nth:
  "i < length out \<Longrightarrow>
   write_digest v out ! i = (if i < 20 then be32 (v ! (i div 4)) ! (i mod 4) else out ! i)"
  using nth_write_words[of i out 5 v] by (simp add: write_digest_def write_words_def DIGEST_LENGTH_def)

lemma length_write_digest: "length (write_digest v out) = length out"
  using length_write_words[of 5 v out] by (simp add: write_digest_def write_words_def DIGEST_LENGTH_def)

lemma write_digest_full:
  assumes "length v = 5" "length out = 20"
  shows "write_digest v out = digest_bytes v"
  by (rule nth_equalityI)
     (use assms in \<open>simp_all add: length_write_digest length_digest_bytes write_digest_nth nth_digest_bytes\<close>)

lemma digest_absorbed:
  assumes "absorbed h m"
  shows "snd (digest h) = digest_bytes (sha1_state m)"
  by (simp add: digest_def finish_absorbed[OF assms] write_digest_full length_sha1_state DIGEST_LENGTH_def)

section \<open>New and reset hashers\<close>

lemma state_reset: "length (state h) = 5 \<Longrightarrow> state (reset h) = H0"
proof -
  assume "length (state h) = 5"
  then obtain a b c d e where "state h = [a, b, c, d, e]"
    by (auto simp: length_Suc_conv eval_nat_numeral)
  then show ?thesis by (simp add: reset_def initState_def H0_def)
qed

lemma reset_fields:
  "bufferLength (reset h) = 0" "bytesHashed (reset h) = 0" "\<not> finished (reset h)"
  "temp (reset h) = temp h" "buffer (reset h) = buffer h" "length (state (reset h)) = length (state h)"
  by (simp_all add: reset_def initState_def)

lemma wf_reset: "wf h \<Longrightarrow> wf (reset h)"
  by (simp add: wf_def reset_def initState_def)

lemma absorbed_reset: "wf h \<Longrightarrow> absorbed (reset h) []"
proof -
  assume wf: "wf h"
  then have "state (reset h) = H0" by (simp add: state_reset wf_def)
  then show ?thesis
    using wf_reset[OF wf] by (simp add: absorbed_def absorbed_from_def reset_fields(1-3) blocks_of_short)
qed

lemma wf_new: "wf SHA1_new"
  unfolding SHA1_new_def by (rule wf_reset) (simp add: wf_def)

lemma absorbed_new: "absorbed SHA1_new []"
  unfolding SHA1_new_def by (rule absorbed_reset) (simp add: wf_def)

lemma update_chunks_absorbed:
  "absorbed h m \<Longrightarrow> \<exists>h'. update_chunks h cs = (Inr (), h') \<and> absorbed h' (m @ concat cs)"
proof (induction cs arbitrary: h m)
  case Nil
  then show ?case by simp
next
  case (Cons c cs)
  from update_absorbed[OF Cons.prems, of c "length c"]
  obtain h1 where h1: "update h c (length c) = (Inr (), h1)" "absorbed h1 (m @ c)"
    by (auto simp: slice_self)
  from Cons.IH[OF h1(2)] obtain h' where "update_chunks h1 cs = (Inr (), h')" "absorbed h' ((m @ c) @ concat cs)"
    by blast
  then show ?case using h1(1) by simp
qed

lemma finished_finalize: "finished (finalize h)"
  by (simp add: finalize_def split: prod.splits)

lemma finished_finish: "finished (fst (finish h out))"
  by (simp add: finish_unfold Let_def finished_finalize)

lemma finish_again: "finished h \<Longrightarrow> finish h out = (h, write_digest (state h) out)"
  by (simp add: finish_unfold)

lemma take20_write_digest:
  assumes "20 \<le> length out1" "20 \<le> length out2"
  shows "take 20 (write_digest v out1) = take 20 (write_digest v out2)"
  by (rule nth_equalityI) (use assms in \<open>simp_all add: length_write_digest write_digest_nth\<close>)

section \<open>The byte counters of reachable hashers\<close>














section \<open>The output of \<open>finish\<close>\<close>

lemma wf_finalize: "wf h \<Longrightarrow> wf (finalize h)"
proof -
  assume c: "wf h"
  then have "length (temp h) = 80" "padLength_of h \<le> length (buffer h)"
    by (simp_all add: wf_def padLength_of_def)
  from finalize_eq[OF this] obtain w where "length w = 80"
    "finalize h = h\<lparr>state := foldl compress (state h) (blocks_of (take (padLength_of h) (pad_buffer h))),
                   temp := w, buffer := pad_buffer h, finished := True\<rparr>" by blast
  then show ?thesis using c
    by (simp add: wf_def length_foldl_compress length_pad_buffer)
qed

lemma wf_finish: "wf h \<Longrightarrow> wf (fst (finish h out))"
  by (simp add: finish_unfold Let_def wf_finalize)

lemma finish_out: "snd (finish h out) = write_digest (state (fst (finish h out))) out"
  by (simp add: finish_unfold Let_def)

lemma write_digest_take_drop:
  assumes "length v = 5"
  shows "write_digest v out = take (length out) (digest_bytes v) @ drop 20 out"
proof (rule nth_equalityI)
  show "length (write_digest v out) = length (take (length out) (digest_bytes v) @ drop 20 out)"
    using assms by (simp add: length_write_digest length_digest_bytes)
next
  fix i assume "i < length (write_digest v out)"
  then have i: "i < length out" by (simp add: length_write_digest)
  show "write_digest v out ! i = (take (length out) (digest_bytes v) @ drop 20 out) ! i"
  proof (cases "i < 20")
    case True
    then show ?thesis using i assms
      by (simp add: write_digest_nth nth_append length_digest_bytes nth_digest_bytes)
  next
    case False
    then have "min (length out) 20 = 20" "20 + (i - 20) = i" using i by simp_all
    then show ?thesis using i assms False
      by (simp add: write_digest_nth nth_append length_digest_bytes)
  qed
qed

lemma bit_len_64:
  "word_cat (word_of_nat (n div 0x20000000) :: int32) (push_bit 3 (word_of_nat n) :: int32) =
   (word_of_nat (8 * n) :: 64 word)"
proof (rule bit_word_eqI)
  fix i assume "i < LENGTH(64)"
  have e: "8 * n = push_bit 3 n" "n div 0x20000000 = drop_bit 29 n"
    by (simp_all add: push_bit_eq_mult drop_bit_eq_div)
  show "bit (word_cat (word_of_nat (n div 0x20000000) :: int32) (push_bit 3 (word_of_nat n) :: int32) :: 64 word) i =
        bit (word_of_nat (8 * n) :: 64 word) i"
    unfolding e using \<open>i < LENGTH(64)\<close>
    by (auto simp: bit_word_cat_iff bit_simps bit_push_bit_iff bit_drop_bit_eq)
qed

lemma readUint32BE_be32: "readUint32BE (be32 v) 0 = v"
proof (rule bit_word_eqI)
  fix n assume n: "n < LENGTH(32)"
  consider "n < 8" | "8 \<le> n \<and> n < 16" | "16 \<le> n \<and> n < 24" | "24 \<le> n" by linarith
  then show "bit (readUint32BE (be32 v) 0) n = bit v n"
    using n
    by cases (auto simp: readUint32BE_def be32_def byte_at_def bit_or_iff bit_push_bit_iff
        bit_ucast_iff bit_drop_bit_eq)
qed

section \<open>Hashers restored from a snapshot written by hand\<close>

lemma restoreState_handmade:
  "restoreState SHA1_new (handmade bl bh) =
     (Inr (), \<lparr>state = H0, temp = replicate 80 0, buffer = replicate 128 7,
                 bufferLength = bl, bytesHashed = bh, finished = False\<rparr>)"
  by (simp add: restoreState_def array_set_def SHA1_new_def reset_def initState_def H0_def
      handmade_def)

lemma reachable_handmade: "reachable (snd (restoreState SHA1_new (handmade bl bh)))"
  by (intro reachable.intros)

lemma be32_0_nth: "j < 4 \<Longrightarrow> be32 0 ! j = 0"
  by (auto simp: be32_def nth_Cons')

lemma pad_buffer_60_0:
  "pad_buffer \<lparr>state = v, temp = w, buffer = replicate 128 7,
                bufferLength = 60, bytesHashed = 0, finished = False\<rparr> =
   replicate 56 7 @ replicate 8 0 @ replicate 64 7"
proof (rule nth_equalityI)
  show "length (pad_buffer \<lparr>state = v, temp = w, buffer = replicate 128 7,
      bufferLength = 60, bytesHashed = 0, finished = False\<rparr>) =
    length (replicate 56 (7 :: byte) @ replicate 8 0 @ replicate 64 7)"
    by (simp add: length_pad_buffer)
next
  fix i
  assume "i < length (pad_buffer \<lparr>state = v, temp = w, buffer = replicate 128 7,
      bufferLength = 60, bytesHashed = 0, finished = False\<rparr>)"
  then have i: "i < 128" by (simp add: length_pad_buffer)
  then show "pad_buffer \<lparr>state = v, temp = w, buffer = replicate 128 7,
      bufferLength = 60, bytesHashed = 0, finished = False\<rparr> ! i =
      (replicate 56 7 @ replicate 8 0 @ replicate 64 7) ! i"
    by (auto simp: nth_pad_buffer padLength_of_def bitLenHi_of_def bitLenLo_of_def nth_append
        intro!: be32_0_nth)
qed

lemma finish_handmade_60:
  "\<exists>w. fst (finish (snd (restoreState SHA1_new (handmade 60 0))) out) =
     \<lparr>state = compress H0 (replicate 56 7 @ replicate 8 0), temp = w,
      buffer = replicate 56 7 @ replicate 8 0 @ replicate 64 7,
      bufferLength = 60, bytesHashed = 0, finished = True\<rparr> \<and>
     hashBlocks (replicate 80 0) H0 (replicate 56 7 @ replicate 8 0 @ replicate 64 7) 0 64 =
       (w, compress H0 (replicate 56 7 @ replicate 8 0), 64)"
proof -
  let ?h = "\<lparr>state = H0, temp = replicate 80 0, buffer = replicate 128 7,
             bufferLength = 60, bytesHashed = 0, finished = False\<rparr>"
  let ?b = "replicate 56 (7 :: byte) @ replicate 8 0 @ replicate 64 7"
  have pl: "padLength_of ?h = 64" by (simp add: padLength_of_def)
  have sl: "slice ?b 0 64 = replicate 56 7 @ replicate 8 0"
    by (simp add: slice_in_range)
  from hashBlocks_eq[of "replicate 80 0" H0 ?b 0 64]
  obtain w where w: "hashBlocks (replicate 80 0) H0 ?b 0 64 =
      (w, compress H0 (replicate 56 7 @ replicate 8 0), 64)"
    by (auto simp: sl blocks_of_single)
  then have "finalize ?h = \<lparr>state = compress H0 (replicate 56 7 @ replicate 8 0), temp = w,
      buffer = ?b, bufferLength = 60, bytesHashed = 0, finished = True\<rparr>"
    by (simp add: finalize_def pl pad_buffer_60_0)
  then show ?thesis
    using w by (simp add: restoreState_handmade finish_unfold Let_def)
qed

section \<open>Evaluating the engine\<close>

lemma round_step_word: "round_step w i s = round_word (w ! i) i s"
  by (simp add: round_step_def round_word_def)

lemma fold_rounds_list:
  "\<forall>j<length xs. w ! (i + j) = xs ! j \<Longrightarrow>
   fold (round_step w) [i..<i + length xs] s = rounds_list i xs s"
proof (induction xs arbitrary: i s)
  case Nil
  then show ?case by simp
next
  case (Cons x xs)
  have "i < i + length (x # xs)" by simp
  from upt_conv_Cons[OF this]
  have u: "[i..<i + length (x # xs)] = i # [Suc i..<Suc i + length xs]"
    by simp
  have x: "w ! i = x" using Cons.prems by force
  have "\<forall>j<length xs. w ! (Suc i + j) = xs ! j"
  proof (intro allI impI)
    fix j assume "j < length xs"
    then have "w ! (i + Suc j) = (x # xs) ! Suc j" using Cons.prems by (metis Suc_less_eq length_Cons)
    then show "w ! (Suc i + j) = xs ! j" by simp
  qed
  from Cons.IH[OF this] show ?case
    unfolding u by (simp add: round_step_word x)
qed

lemma rounds_eq_list: "length w = 80 \<Longrightarrow> rounds w s = rounds_list 0 w s"
  using fold_rounds_list[of w w 0 s] by (simp add: rounds_def)

lemma length_be_words: "length (be_words bs) = length bs div 4"
  by (induction bs rule: be_words.induct) simp_all

lemma nth_be_words: "i * 4 + 4 \<le> length bs \<Longrightarrow> be_words bs ! i = readUint32BE bs (i * 4)"
proof (induction bs arbitrary: i rule: be_words.induct)
  case (1 a b c d rest)
  show ?case
  proof (cases i)
    case 0
    then show ?thesis by (simp add: readUint32BE_def byte_at_def)
  next
    case (Suc j)
    then have "j * 4 + 4 \<le> length rest" using "1.prems" by simp
    from "1.IH"[OF this] show ?thesis
      using Suc \<open>j * 4 + 4 \<le> length rest\<close> by (simp add: readUint32BE_def byte_at_def add.commute)
  qed
qed simp_all

lemma ext_rev_Suc_end: "ext_rev (Suc n) r = sched_step (ext_rev n r)"
  by (induction n arbitrary: r) simp_all

lemma expand_upto_rev:
  assumes "length w = 80"
  shows "16 \<le> n \<Longrightarrow> n \<le> 80 \<Longrightarrow> rev (take n (expand_upto n w)) = ext_rev (n - 16) (rev (take 16 w))"
proof (induction n)
  case 0 then show ?case by simp
next
  case (Suc n)
  show ?case
  proof (cases "n = 15")
    case True
    then show ?thesis by (simp add: expand_upto_def)
  next
    case False
    with Suc.prems have n: "16 \<le> n" "n < 80" by auto
    define u where "u = expand_upto n w"
    define R where "R = ext_rev (n - 16) (rev (take 16 w))"
    have lu: "length u = 80" by (simp add: u_def length_expand_upto assms)
    have IH: "rev (take n u) = R" using Suc.IH n by (simp add: u_def R_def)
    have nth: "R ! j = u ! (n - Suc j)" if "j < n" for j
    proof -
      have "rev (take n u) ! j = take n u ! (length (take n u) - Suc j)"
        by (rule rev_nth) (use that lu n in simp)
      then show ?thesis using that lu n by (simp add: IH)
    qed
    have e: "R ! 2 = u ! (n - 3)" "R ! 7 = u ! (n - 8)" "R ! 13 = u ! (n - 14)" "R ! 15 = u ! (n - 16)"
      using nth[of 2] nth[of 7] nth[of 13] nth[of 15] n by (simp_all add: eval_nat_numeral)
    have "take (Suc n) (expand_upto (Suc n) w) =
        take n u @ [leftrotate (u ! (n - 3) XOR u ! (n - 8) XOR u ! (n - 14) XOR u ! (n - 16)) 1]"
      using n lu by (simp add: expand_upto_Suc Let_def u_def [symmetric] take_Suc_conv_app_nth)
    then have "rev (take (Suc n) (expand_upto (Suc n) w)) =
        leftrotate (R ! 2 XOR R ! 7 XOR R ! 13 XOR R ! 15) 1 # R"
      by (simp add: IH e)
    moreover have "Suc n - 16 = Suc (n - 16)" using n by simp
    ultimately show ?thesis
      by (simp only: ext_rev_Suc_end sched_step_def R_def)
  qed
qed

lemma schedule_eval:
  assumes "length w = 80" "length blk = 64"
  shows "expand_words (load_words w blk 0) = rev (ext_rev 64 (rev (be_words blk)))"
proof -
  define w1 where "w1 = load_words w blk 0"
  have l1: "length w1 = 80" by (simp add: w1_def length_load_words assms)
  have "take 16 w1 = be_words blk"
  proof (rule nth_equalityI)
    show "length (take 16 w1) = length (be_words blk)"
      using l1 assms by (simp add: length_be_words)
  next
    fix i assume "i < length (take 16 w1)"
    then have i: "i < 16" by simp
    then have "i * 4 + 4 \<le> length blk" using assms by simp
    then show "take 16 w1 ! i = be_words blk ! i"
      using i assms by (simp add: w1_def load_words_nth nth_be_words)
  qed
  moreover have "rev (take 80 (expand_upto 80 w1)) = ext_rev (80 - 16) (rev (take 16 w1))"
    by (rule expand_upto_rev[OF l1]) simp_all
  moreover have "expand_words w1 = expand_upto 80 w1"
    by (simp only: expand_words_def expand_upto_def)
  ultimately have "rev (expand_words w1) = ext_rev 64 (rev (be_words blk))"
    by (simp add: length_expand_upto l1)
  then show ?thesis unfolding w1_def by (metis rev_rev_ident)
qed

lemma accumulate_5:
  "accumulate [v0, v1, v2, v3, v4] (a, b, c, d, e) = [v0 + a, v1 + b, v2 + c, v3 + d, v4 + e]"
  by (simp add: accumulate_def safeAdd_eq)

lemma compress_eval:
  assumes "length blk = 64"
  shows "compress [v0, v1, v2, v3, v4] blk =
    (case rounds_list 0 (rev (ext_rev 64 (rev (be_words blk)))) (v0, v1, v2, v3, v4) of
       (a, b, c, d, e) \<Rightarrow> [v0 + a, v1 + b, v2 + c, v3 + d, v4 + e])"
proof -
  define W where "W = rev (ext_rev 64 (rev (be_words blk)))"
  have W: "expand_words (load_words (replicate 80 0) blk 0) = W"
    unfolding W_def by (rule schedule_eval) (simp_all add: assms)
  have "length W = 80"
    using length_expand_words[of "load_words (replicate 80 0) blk 0"]
    by (simp add: W length_load_words)
  then have r: "rounds W s = rounds_list 0 W s" for s by (rule rounds_eq_list)
  obtain a b c d e where s: "rounds_list 0 W (v0, v1, v2, v3, v4) = (a, b, c, d, e)"
    by (metis prod_cases5)
  show ?thesis
    unfolding W_def [symmetric]
    by (simp add: compress_def hashBlock_def Let_def W r s accumulate_5)
qed

lemma w32_mod: "(word_of_nat (k mod 4294967296) :: 32 word) = word_of_nat k"
  unfolding word_of_nat_eq_iff take_bit_eq_mod by simp

lemma norm32_pos:
  "(4294967296::nat) \<le> numeral n \<Longrightarrow> (numeral n :: 32 word) = word_of_nat (numeral n mod 4294967296)"
  by (simp only: w32_mod of_nat_numeral)

lemma norm32_neg: "(- numeral n :: 32 word) = word_of_nat (4294967296 - numeral n mod 4294967296)"
proof -
  have z: "(word_of_nat 4294967296 :: 32 word) = 0" by simp
  have "(numeral n :: nat) mod 4294967296 \<le> 4294967296"
    by (rule order.strict_implies_order, rule mod_less_divisor) simp
  then have "(word_of_nat (4294967296 - numeral n mod 4294967296) :: 32 word) =
      word_of_nat 4294967296 - word_of_nat (numeral n mod 4294967296)"
    by (rule of_nat_diff)
  also have "\<dots> = 0 - word_of_nat (numeral n)"
    by (simp only: z w32_mod)
  also have "\<dots> = - numeral n"
    by (simp only: of_nat_numeral diff_0)
  finally show ?thesis by (rule sym)
qed

lemma w8_mod: "(word_of_nat (k mod 256) :: 8 word) = word_of_nat k"
  unfolding word_of_nat_eq_iff take_bit_eq_mod by simp

lemma norm8_pos:
  "(256::nat) \<le> numeral n \<Longrightarrow> (numeral n :: 8 word) = word_of_nat (numeral n mod 256)"
  by (simp only: w8_mod of_nat_numeral)

lemma ext_rev_numeral: "ext_rev (numeral n) r = ext_rev (pred_numeral n) (sched_step r)"
  by (simp add: numeral_eq_Suc)

lemma replicate_num: "replicate (numeral k) b = b # replicate (pred_numeral k) b"
  unfolding numeral_eq_Suc by simp

lemmas word32_eval =
  ext_rev_numeral sched_step_def leftrotate_def round_word_def safeAdd_eq round_f_def round_k_def
  norm32_pos norm32_neg

lemma sha1_state_one_block:
  assumes "m @ padding (length m) = blk" "length blk = 64" "compress H0 blk = v"
  shows "sha1_state m = v"
  using assms by (simp add: sha1_state_def blocks_of_single)

lemma sha1_state_two_blocks:
  assumes "m @ padding (length m) = b1 @ b2" "length b1 = 64" "length b2 = 64"
    "compress H0 b1 = v1" "compress v1 b2 = v2"
  shows "sha1_state m = v2"
proof -
  have "blocks_of (b1 @ b2) = [b1, b2]"
    using assms(2,3) by (simp add: blocks_append blocks_of_single)
  then show ?thesis using assms by (simp add: sha1_state_def)
qed

lemma hash_eq: "hash m = Inr (digest_bytes (sha1_state m))"
proof -
  from update_absorbed[OF absorbed_new, of m "length m"]
  obtain h where "update SHA1_new m (length m) = (Inr (), h)" "absorbed h m"
    by (auto simp: slice_self)
  then show ?thesis by (simp add: hash_def digest_absorbed)
qed

lemma sha1_eq: "sha1 s = Inr (arrayBufferToHex (digest_bytes (sha1_state (TextEncoder_encode s))))"
  by (simp add: sha1_def hash_eq)

lemma hash_length: "hash m = Inr d \<Longrightarrow> length d = DIGEST_LENGTH"
  by (auto simp: hash_eq length_digest_bytes length_sha1_state DIGEST_LENGTH_def)

section \<open>The known-answer vectors\<close>

lemma kat_empty_block1:
  "compress [0x67452301, 0xefcdab89, 0x98badcfe, 0x10325476, 0xc3d2e1f0]
     [0x80, 0x00, 0x00, 0x00, 0x00, 0x00, 0x00, 0x00, 0x00, 0x00, 0x00, 0x00, 0x00, 0x00,
      0x00, 0x00, 0x00, 0x00, 0x00, 0x00, 0x00, 0x00, 0x00, 0x00, 0x00, 0x00, 0x00, 0x00,
      0x00, 0x00, 0x00, 0x00, 0x00, 0x00, 0x00, 0x00, 0x00, 0x00, 0x00, 0x00, 0x00, 0x00,
      0x00, 0x00, 0x00, 0x00, 0x00, 0x00, 0x00, 0x00, 0x00, 0x00, 0x00, 0x00, 0x00, 0x00,
      0x00, 0x00, 0x00, 0x00, 0x00, 0x00, 0x00, 0x00] =
   [0xda39a3ee, 0x5e6b4b0d, 0x3255bfef, 0x95601890, 0xafd80709]"
  by (simp add: compress_eval word32_eval)

lemma kat_empty_state:
  "sha1_state ([] :: byte list) =
   [0xda39a3ee, 0x5e6b4b0d, 0x3255bfef, 0x95601890, 0xafd80709]"
  by (rule sha1_state_one_block [OF _ _ kat_empty_block1 [unfolded H0_def [symmetric]]])
     (simp_all add: padding_def be32_def replicate_num norm8_pos)

lemma kat_firefox_block1:
  "compress [0x67452301, 0xefcdab89, 0x98badcfe, 0x10325476, 0xc3d2e1f0]
     [0x46, 0x69, 0x72, 0x65, 0x66, 0x6f, 0x78, 0x20, 0x76, 0x73, 0x20, 0x43, 0x68, 0x72,
      0x6f, 0x6d, 0x65, 0x80, 0x00, 0x00, 0x00, 0x00, 0x00, 0x00, 0x00, 0x00, 0x00, 0x00,
      0x00, 0x00, 0x00, 0x00, 0x00, 0x00, 0x00, 0x00, 0x00, 0x00, 0x00, 0x00, 0x00, 0x00,
      0x00, 0x00, 0x00, 0x00, 0x00, 0x00, 0x00, 0x00, 0x00, 0x00, 0x00, 0x00, 0x00, 0x00,
      0x00, 0x00, 0x00, 0x00, 0x00, 0x00, 0x00, 0x88] =
   [0xc4e2f8af, 0x05b79913, 0x5198dd4d, 0x29f37d52, 0x45a77631]"
  by (simp add: compress_eval word32_eval)

lemma kat_firefox_state:
  "sha1_state [0x46, 0x69, 0x72, 0x65, 0x66, 0x6f, 0x78, 0x20, 0x76, 0x73, 0x20, 0x43, 0x68, 0x72,
    0x6f, 0x6d, 0x65 :: byte] =
   [0xc4e2f8af, 0x05b79913, 0x5198dd4d, 0x29f37d52, 0x45a77631]"
  by (rule sha1_state_one_block [OF _ _ kat_firefox_block1 [unfolded H0_def [symmetric]]])
     (simp_all add: padding_def be32_def replicate_num norm8_pos)

lemma kat_digits_block1:
  "compress [0x67452301, 0xefcdab89, 0x98badcfe, 0x10325476, 0xc3d2e1f0]
     [0x31, 0x32, 0x33, 0x34, 0x35, 0x36, 0x37, 0x38, 0x39, 0x30, 0x31, 0x32, 0x33, 0x34,
      0x35, 0x36, 0x37, 0x38, 0x39, 0x30, 0x31, 0x32, 0x33, 0x34, 0x35, 0x36, 0x37, 0x38,
      0x39, 0x30, 0x31, 0x32, 0x33, 0x34, 0x35, 0x36, 0x37, 0x38, 0x39, 0x30, 0x31, 0x32,
      0x33, 0x34, 0x35, 0x36, 0x37, 0x38, 0x39, 0x30, 0x31, 0x32, 0x33, 0x34, 0x35, 0x36,
      0x37, 0x38, 0x39, 0x30, 0x80, 0x00, 0x00, 0x00] =
   [0xbff9d213, 0xf943eb2b, 0x0dbc48df, 0xf6983204, 0x5756d015]"
  by (simp add: compress_eval word32_eval)

lemma kat_digits_block2:
  "compress [0xbff9d213, 0xf943eb2b, 0x0dbc48df, 0xf6983204, 0x5756d015]
     [0x00, 0x00, 0x00, 0x00, 0x00, 0x00, 0x00, 0x00, 0x00, 0x00, 0x00, 0x00, 0x00, 0x00,
      0x00, 0x00, 0x00, 0x00, 0x00, 0x00, 0x00, 0x00, 0x00, 0x00, 0x00, 0x00, 0x00, 0x00,
      0x00, 0x00, 0x00, 0x00, 0x00, 0x00, 0x00, 0x00, 0x00, 0x00, 0x00, 0x00, 0x00, 0x00,
      0x00, 0x00, 0x00, 0x00, 0x00, 0x00, 0x00, 0x00, 0x00, 0x00, 0x00, 0x00, 0x00, 0x00,
      0x00, 0x00, 0x00, 0x00, 0x00, 0x00, 0x01, 0xe0] =
   [0x245be300, 0x91fd392f, 0xe191f4bf, 0xcec22dcb, 0x30a03ae6]"
  by (simp add: compress_eval word32_eval)

lemma kat_digits_state:
  "sha1_state [0x31, 0x32, 0x33, 0x34, 0x35, 0x36, 0x37, 0x38, 0x39, 0x30, 0x31, 0x32, 0x33, 0x34,
    0x35, 0x36, 0x37, 0x38, 0x39, 0x30, 0x31, 0x32, 0x33, 0x34, 0x35, 0x36, 0x37, 0x38,
    0x39, 0x30, 0x31, 0x32, 0x33, 0x34, 0x35, 0x36, 0x37, 0x38, 0x39, 0x30, 0x31, 0x32,
    0x33, 0x34, 0x35, 0x36, 0x37, 0x38, 0x39, 0x30, 0x31, 0x32, 0x33, 0x34, 0x35, 0x36,
    0x37, 0x38, 0x39, 0x30 :: byte] =
   [0x245be300, 0x91fd392f, 0xe191f4bf, 0xcec22dcb, 0x30a03ae6]"
  by (rule sha1_state_two_blocks [OF _ _ _ kat_digits_block1 [unfolded H0_def [symmetric]] kat_digits_block2])
     (simp_all add: padding_def be32_def replicate_num norm8_pos)

lemma kat_hanazawa_block1:
  "compress [0x67452301, 0xefcdab89, 0x98badcfe, 0x10325476, 0xc3d2e1f0]
     [0xe8, 0x8a, 0xb1, 0xe6, 0xbe, 0xa4, 0xe9, 0xa6, 0x99, 0xe8, 0x8f, 0x9c, 0x80, 0x00,
      0x00, 0x00, 0x00, 0x00, 0x00, 0x00, 0x00, 0x00, 0x00, 0x00, 0x00, 0x00, 0x00, 0x00,
      0x00, 0x00, 0x00, 0x00, 0x00, 0x00, 0x00, 0x00, 0x00, 0x00, 0x00, 0x00, 0x00, 0x00,
      0x00, 0x00, 0x00, 0x00, 0x00, 0x00, 0x00, 0x00, 0x00, 0x00, 0x00, 0x00, 0x00, 0x00,
      0x00, 0x00, 0x00, 0x00, 0x00, 0x00, 0x00, 0x60] =
   [0x421145fe, 0x4b35eaa6, 0xc0cf006a, 0xfb38fae6, 0xd1d2bbae]"
  by (simp add: compress_eval word32_eval)

lemma kat_hanazawa_state:
  "sha1_state [0xe8, 0x8a, 0xb1, 0xe6, 0xbe, 0xa4, 0xe9, 0xa6, 0x99, 0xe8, 0x8f, 0x9c :: byte] =
   [0x421145fe, 0x4b35eaa6, 0xc0cf006a, 0xfb38fae6, 0xd1d2bbae]"
  by (rule sha1_state_one_block [OF _ _ kat_hanazawa_block1 [unfolded H0_def [symmetric]]])
     (simp_all add: padding_def be32_def replicate_num norm8_pos)

lemmas text_eval = ascii_def utf8_bytes_def is_surrogate_def

lemmas hex_eval = digest_bytes_def be32_def arrayBufferToHex_def hex_digit_def

lemma kat_empty: "sha1 (ascii '''') = Inr ''da39a3ee5e6b4b0d3255bfef95601890afd80709''"
proof -
  have "TextEncoder_encode (ascii '''') = []"
    by (simp add: text_eval)
  then show ?thesis by (simp add: sha1_eq kat_empty_state hex_eval)
qed

lemma kat_firefox:
  "sha1 (ascii ''Firefox vs Chrome'') = Inr ''c4e2f8af05b799135198dd4d29f37d5245a77631''"
proof -
  have "TextEncoder_encode (ascii ''Firefox vs Chrome'') =
      [0x46, 0x69, 0x72, 0x65, 0x66, 0x6f, 0x78, 0x20, 0x76, 0x73, 0x20, 0x43, 0x68, 0x72,
       0x6f, 0x6d, 0x65]"
    by (simp add: text_eval)
  then show ?thesis by (simp add: sha1_eq kat_firefox_state hex_eval)
qed

lemma kat_digits:
  "sha1 (ascii ''123456789012345678901234567890123456789012345678901234567890'') =
   Inr ''245be30091fd392fe191f4bfcec22dcb30a03ae6''"
proof -
  have "TextEncoder_encode (ascii ''123456789012345678901234567890123456789012345678901234567890'') =
      [0x31, 0x32, 0x33, 0x34, 0x35, 0x36, 0x37, 0x38, 0x39, 0x30, 0x31, 0x32, 0x33, 0x34,
       0x35, 0x36, 0x37, 0x38, 0x39, 0x30, 0x31, 0x32, 0x33, 0x34, 0x35, 0x36, 0x37, 0x38,
       0x39, 0x30, 0x31, 0x32, 0x33, 0x34, 0x35, 0x36, 0x37, 0x38, 0x39, 0x30, 0x31, 0x32,
       0x33, 0x34, 0x35, 0x36, 0x37, 0x38, 0x39, 0x30, 0x31, 0x32, 0x33, 0x34, 0x35, 0x36,
       0x37, 0x38, 0x39, 0x30]"
    by (simp add: text_eval)
  then show ?thesis by (simp add: sha1_eq kat_digits_state hex_eval)
qed

lemma kat_hanazawa:
  "sha1 [0x82B1, 0x6FA4, 0x9999, 0x83DC] = Inr ''421145fe4b35eaa6c0cf006afb38fae6d1d2bbae''"
proof -
  have "TextEncoder_encode [0x82B1, 0x6FA4, 0x9999, 0x83DC] =
      [0xe8, 0x8a, 0xb1, 0xe6, 0xbe, 0xa4, 0xe9, 0xa6, 0x99, 0xe8, 0x8f, 0x9c]"
    by (simp add: text_eval)
  then show ?thesis by (simp add: sha1_eq kat_hanazawa_state hex_eval)
qed

text \<open>The construction modelled for \<open>hmac\<close> gives the value that the tests of the
  repository expect of \<open>HmacSHA1\<close>.\<close>

lemma hmac_inner_block1:
  "compress [0x67452301, 0xefcdab89, 0x98badcfe, 0x10325476, 0xc3d2e1f0]
     [0x5d, 0x53, 0x4f, 0x36, 0x36, 0x36, 0x36, 0x36, 0x36, 0x36, 0x36, 0x36, 0x36, 0x36,
      0x36, 0x36, 0x36, 0x36, 0x36, 0x36, 0x36, 0x36, 0x36, 0x36, 0x36, 0x36, 0x36, 0x36,
      0x36, 0x36, 0x36, 0x36, 0x36, 0x36, 0x36, 0x36, 0x36, 0x36, 0x36, 0x36, 0x36, 0x36,
      0x36, 0x36, 0x36, 0x36, 0x36, 0x36, 0x36, 0x36, 0x36, 0x36, 0x36, 0x36, 0x36, 0x36,
      0x36, 0x36, 0x36, 0x36, 0x36, 0x36, 0x36, 0x36] =
   [0x57b4b350, 0x61f380ab, 0x43e75e56, 0x411305a2, 0x588b71ba]"
  by (simp add: compress_eval word32_eval)

lemma hmac_inner_block2:
  "compress [0x57b4b350, 0x61f380ab, 0x43e75e56, 0x411305a2, 0x588b71ba]
     [0x68, 0x65, 0x6c, 0x6c, 0x6f, 0x77, 0x6f, 0x72, 0x6c, 0x64, 0x80, 0x00, 0x00, 0x00,
      0x00, 0x00, 0x00, 0x00, 0x00, 0x00, 0x00, 0x00, 0x00, 0x00, 0x00, 0x00, 0x00, 0x00,
      0x00, 0x00, 0x00, 0x00, 0x00, 0x00, 0x00, 0x00, 0x00, 0x00, 0x00, 0x00, 0x00, 0x00,
      0x00, 0x00, 0x00, 0x00, 0x00, 0x00, 0x00, 0x00, 0x00, 0x00, 0x00, 0x00, 0x00, 0x00,
      0x00, 0x00, 0x00, 0x00, 0x00, 0x00, 0x02, 0x50] =
   [0xa675bbc7, 0x19df24ca, 0x08828c62, 0x0c1dd719, 0x70b9a005]"
  by (simp add: compress_eval word32_eval)

lemma hmac_inner_state:
  "sha1_state [0x5d, 0x53, 0x4f, 0x36, 0x36, 0x36, 0x36, 0x36, 0x36, 0x36, 0x36, 0x36, 0x36, 0x36,
    0x36, 0x36, 0x36, 0x36, 0x36, 0x36, 0x36, 0x36, 0x36, 0x36, 0x36, 0x36, 0x36, 0x36,
    0x36, 0x36, 0x36, 0x36, 0x36, 0x36, 0x36, 0x36, 0x36, 0x36, 0x36, 0x36, 0x36, 0x36,
    0x36, 0x36, 0x36, 0x36, 0x36, 0x36, 0x36, 0x36, 0x36, 0x36, 0x36, 0x36, 0x36, 0x36,
    0x36, 0x36, 0x36, 0x36, 0x36, 0x36, 0x36, 0x36, 0x68, 0x65, 0x6c, 0x6c, 0x6f, 0x77,
    0x6f, 0x72, 0x6c, 0x64 :: byte] =
   [0xa675bbc7, 0x19df24ca, 0x08828c62, 0x0c1dd719, 0x70b9a005]"
  by (rule sha1_state_two_blocks [OF _ _ _ hmac_inner_block1 [unfolded H0_def [symmetric]] hmac_inner_block2])
     (simp_all add: padding_def be32_def replicate_num norm8_pos)

lemma hmac_outer_block1:
  "compress [0x67452301, 0xefcdab89, 0x98badcfe, 0x10325476, 0xc3d2e1f0]
     [0x37, 0x39, 0x25, 0x5c, 0x5c, 0x5c, 0x5c, 0x5c, 0x5c, 0x5c, 0x5c, 0x5c, 0x5c, 0x5c,
      0x5c, 0x5c, 0x5c, 0x5c, 0x5c, 0x5c, 0x5c, 0x5c, 0x5c, 0x5c, 0x5c, 0x5c, 0x5c, 0x5c,
      0x5c, 0x5c, 0x5c, 0x5c, 0x5c, 0x5c, 0x5c, 0x5c, 0x5c, 0x5c, 0x5c, 0x5c, 0x5c, 0x5c,
      0x5c, 0x5c, 0x5c, 0x5c, 0x5c, 0x5c, 0x5c, 0x5c, 0x5c, 0x5c, 0x5c, 0x5c, 0x5c, 0x5c,
      0x5c, 0x5c, 0x5c, 0x5c, 0x5c, 0x5c, 0x5c, 0x5c] =
   [0xd0dc5c91, 0xaed3b16e, 0xb2af8174, 0x9b5e179f, 0xb070be78]"
  by (simp add: compress_eval word32_eval)

lemma hmac_outer_block2:
  "compress [0xd0dc5c91, 0xaed3b16e, 0xb2af8174, 0x9b5e179f, 0xb070be78]
     [0xa6, 0x75, 0xbb, 0xc7, 0x19, 0xdf, 0x24, 0xca, 0x08, 0x82, 0x8c, 0x62, 0x0c, 0x1d,
      0xd7, 0x19, 0x70, 0xb9, 0xa0, 0x05, 0x80, 0x00, 0x00, 0x00, 0x00, 0x00, 0x00, 0x00,
      0x00, 0x00, 0x00, 0x00, 0x00, 0x00, 0x00, 0x00, 0x00, 0x00, 0x00, 0x00, 0x00, 0x00,
      0x00, 0x00, 0x00, 0x00, 0x00, 0x00, 0x00, 0x00, 0x00, 0x00, 0x00, 0x00, 0x00, 0x00,
      0x00, 0x00, 0x00, 0x00, 0x00, 0x00, 0x02, 0xa0] =
   [0x078a9e90, 0xcb39d3a3, 0xefe3497d, 0x03536245, 0x9b197b56]"
  by (simp add: compress_eval word32_eval)

lemma hmac_outer_state:
  "sha1_state [0x37, 0x39, 0x25, 0x5c, 0x5c, 0x5c, 0x5c, 0x5c, 0x5c, 0x5c, 0x5c, 0x5c, 0x5c, 0x5c,
    0x5c, 0x5c, 0x5c, 0x5c, 0x5c, 0x5c, 0x5c, 0x5c, 0x5c, 0x5c, 0x5c, 0x5c, 0x5c, 0x5c,
    0x5c, 0x5c, 0x5c, 0x5c, 0x5c, 0x5c, 0x5c, 0x5c, 0x5c, 0x5c, 0x5c, 0x5c, 0x5c, 0x5c,
    0x5c, 0x5c, 0x5c, 0x5c, 0x5c, 0x5c, 0x5c, 0x5c, 0x5c, 0x5c, 0x5c, 0x5c, 0x5c, 0x5c,
    0x5c, 0x5c, 0x5c, 0x5c, 0x5c, 0x5c, 0x5c, 0x5c, 0xa6, 0x75, 0xbb, 0xc7, 0x19, 0xdf,
    0x24, 0xca, 0x08, 0x82, 0x8c, 0x62, 0x0c, 0x1d, 0xd7, 0x19, 0x70, 0xb9, 0xa0, 0x05 :: byte] =
   [0x078a9e90, 0xcb39d3a3, 0xefe3497d, 0x03536245, 0x9b197b56]"
  by (rule sha1_state_two_blocks [OF _ _ _ hmac_outer_block1 [unfolded H0_def [symmetric]] hmac_outer_block2])
     (simp_all add: padding_def be32_def replicate_num norm8_pos)

lemma hmac_known_answer:
  "HmacSHA1 (ascii ''key'') (ascii ''helloworld'') = Inr ''078a9e90cb39d3a3efe3497d035362459b197b56''"
proof -
  have k: "TextEncoder_encode (ascii ''key'') = [0x6b, 0x65, 0x79]"
    and d: "TextEncoder_encode (ascii ''helloworld'') =
      [0x68, 0x65, 0x6c, 0x6c, 0x6f, 0x77, 0x6f, 0x72, 0x6c, 0x64]"
    by (simp_all add: text_eval)
  show ?thesis
    unfolding HmacSHA1_def hashWithHmac_def hmac_def k d
    by (simp add: BLOCK_SIZE_def replicate_num hash_eq hmac_inner_state hmac_outer_state hex_eval
        norm8_pos)
qed

section \<open>The claims\<close>

text \<open>
  Claim C1.  The string functions reproduce the known-answer vectors of the spec: the empty
  string, "Firefox vs Chrome", the sixty digits, and the four characters U+82B1 U+6FA4
  U+9999 U+83DC, whose UTF-8 encoding has twelve bytes.
\<close>

theorem sha1_known_answers:
  "sha1 (ascii '''') = Inr ''da39a3ee5e6b4b0d3255bfef95601890afd80709'' \<and>
   sha1 (ascii ''Firefox vs Chrome'') = Inr ''c4e2f8af05b799135198dd4d29f37d5245a77631'' \<and>
   sha1 (ascii ''123456789012345678901234567890123456789012345678901234567890'') =
     Inr ''245be30091fd392fe191f4bfcec22dcb30a03ae6'' \<and>
   sha1 [0x82B1, 0x6FA4, 0x9999, 0x83DC] = Inr ''421145fe4b35eaa6c0cf006afb38fae6d1d2bbae''"
  using kat_empty kat_firefox kat_digits kat_hanazawa by (intro conjI)

text \<open>
  Claim C2.  For every sequence of chunks, a new hasher updated once for each chunk in
  order and a new hasher updated once with the concatenation of the chunks both succeed
  and \<open>digest\<close> returns the same 20 bytes for both.
\<close>

theorem chunking_independence:
  "\<exists>h1 h2. update_chunks SHA1_new chunks = (Inr (), h1) \<and>
     update SHA1_new (concat chunks) (length (concat chunks)) = (Inr (), h2) \<and>
     snd (digest h1) = snd (digest h2) \<and> length (snd (digest h2)) = DIGEST_LENGTH"
proof -
  from update_chunks_absorbed[OF absorbed_new, of chunks]
  obtain h1 where h1: "update_chunks SHA1_new chunks = (Inr (), h1)" "absorbed h1 (concat chunks)"
    by auto
  from update_absorbed[OF absorbed_new, of "concat chunks" "length (concat chunks)"]
  obtain h2 where h2: "update SHA1_new (concat chunks) (length (concat chunks)) = (Inr (), h2)"
    "absorbed h2 (concat chunks)"
    by (auto simp: slice_self)
  have "snd (digest h1) = snd (digest h2)"
    by (simp add: digest_absorbed[OF h1(2)] digest_absorbed[OF h2(2)])
  moreover have "length (snd (digest h2)) = DIGEST_LENGTH"
    by (simp add: digest_absorbed[OF h2(2)] length_digest_bytes length_sha1_state DIGEST_LENGTH_def)
  ultimately show ?thesis using h1(1) h2(1) by blast
qed

theorem chunking_independence_witness:
  "\<exists>h1 h2. update_chunks SHA1_new [[1, 2], [], [3]] = (Inr (), h1) \<and>
     update SHA1_new (concat [[1, 2], [], [3]]) (length (concat [[1, 2], [], [3 :: byte]])) = (Inr (), h2) \<and>
     snd (digest h1) = snd (digest h2) \<and> length (snd (digest h2)) = DIGEST_LENGTH"
  by (rule chunking_independence [of "[[1, 2], [], [3]]"])

text \<open>
  Claim C3.  \<open>finish\<close> is idempotent.  A second call leaves the hasher exactly as the first
  call left it (state words, schedule array, buffer, counters and flag: nothing is
  processed again), it writes into an output array what the first call wrote into it, and
  the 20 digest bytes are the same in any two output arrays of at least 20 bytes; so
  \<open>digest\<close> returns the same bytes twice.
\<close>

theorem finish_idempotent:
  "fst (finish (fst (finish h out1)) out2) = fst (finish h out1) \<and>
   snd (finish (fst (finish h out1)) out1) = snd (finish h out1) \<and>
   (20 \<le> length out1 \<and> 20 \<le> length out2 \<longrightarrow>
      take 20 (snd (finish (fst (finish h out1)) out2)) = take 20 (snd (finish h out1))) \<and>
   digest (fst (digest h)) = digest h"
proof -
  define h' where "h' = fst (finish h out1)"
  have f: "finished h'" by (simp add: h'_def finished_finish)
  have s1: "snd (finish h out1) = write_digest (state h') out1"
    by (simp add: h'_def finish_unfold Let_def)
  have d: "digest (fst (digest h)) = digest h"
  proof -
    define g where "g = fst (digest h)"
    have "finished g" by (simp add: g_def digest_def finished_finish)
    then have "digest g = (g, write_digest (state g) (replicate DIGEST_LENGTH 0))"
      by (simp add: digest_def finish_again)
    moreover have "digest h = (g, write_digest (state g) (replicate DIGEST_LENGTH 0))"
      by (simp add: g_def digest_def finish_unfold Let_def)
    ultimately have "digest g = digest h" by simp
    then show ?thesis unfolding g_def .
  qed
  show ?thesis
    unfolding h'_def [symmetric]
    using d by (auto simp: finish_again[OF f] s1 intro: take20_write_digest)
qed

theorem finish_idempotent_witness:
  "20 \<le> length (replicate 20 (0::byte)) \<and> 20 \<le> length (replicate 32 (1::byte)) \<and>
   take 20 (snd (finish (fst (finish SHA1_new (replicate 20 0))) (replicate 32 1))) =
   take 20 (snd (finish SHA1_new (replicate 20 0)))"
proof -
  have l: "20 \<le> length (replicate 20 (0::byte))" "20 \<le> length (replicate 32 (1::byte))"
    by simp_all
  with finish_idempotent [of SHA1_new "replicate 20 0" "replicate 32 1"] show ?thesis
    by blast
qed

text \<open>
  Claim C4, as amended.  The first \<open>finish\<close> on an unfinished hasher whose buffer length is
  the byte counter modulo 64, as it is after construction, \<open>reset\<close>, \<open>update\<close> and
  \<open>restoreState\<close> of a snapshot that \<open>saveState\<close> returned.  The padded length is 64 when
  the buffered length modulo 64 is below 56 and 128 otherwise.  Up to the padded length the
  buffer then holds the buffered bytes, the byte 0x80, zeros, and the bit length as two
  big-endian 32-bit words, the high one first; together they are the bit length modulo
  \<open>2 ^ 64\<close>.  The rest of the buffer is as before.  The engine is run over these 64 or
  128 bytes from the old state, and the 20 bytes written are the five state words, each
  most significant byte first.
\<close>

theorem finish_padding:
  assumes "\<not> finished h" "wf h" "bufferLength h = bytesHashed h mod 64"
  shows
   "(let left = bufferLength h;
         padLength = (if left mod 64 < 56 then 64 else 128);
         bitLenHi = (word_of_nat (bytesHashed h div 2 ^ 29) :: int32);
         bitLenLo = (word_of_nat (bytesHashed h * 8) :: int32);
         h' = fst (finish h out)
     in take padLength (buffer h') =
          take left (buffer h) @ [0x80] @ replicate (padLength - 9 - left) 0 @
          be32 bitLenHi @ be32 bitLenLo \<and>
        drop padLength (buffer h') = drop padLength (buffer h) \<and>
        word_cat bitLenHi bitLenLo = (word_of_nat (8 * bytesHashed h) :: 64 word) \<and>
        (\<exists>w pos. hashBlocks (temp h) (state h) (buffer h') 0 padLength = (w, state h', pos) \<and>
           temp h' = w) \<and>
        state h' = foldl compress (state h) (blocks_of (take padLength (buffer h'))) \<and>
        finished h' \<and> bufferLength h' = left \<and> bytesHashed h' = bytesHashed h \<and>
        (DIGEST_LENGTH \<le> length out \<longrightarrow>
           take DIGEST_LENGTH (snd (finish h out)) = digest_bytes (state h')) \<and>
        snd (digest h) = digest_bytes (state h'))"
proof -
  define pl where "pl = padLength_of h"
  have len: "length (buffer h) = 128" "length (temp h) = 80" "length (state h) = 5"
    using assms(2) by (simp_all add: wf_def)
  have plb: "pl \<le> length (buffer h)" using len by (simp add: pl_def padLength_of_def)
  have pl: "(if bufferLength h mod 64 < 56 then 64 else 128) = pl"
    using assms(3) by (simp add: pl_def padLength_of_def)
  have lo: "(word_of_nat (bytesHashed h * 8) :: int32) = bitLenLo_of h"
    by (simp add: bitLenLo_of_def push_bit_eq_mult mult.commute)
  have hi: "(word_of_nat (bytesHashed h div 2 ^ 29) :: int32) = bitLenHi_of h"
    by (simp add: bitLenHi_of_def)
  have f: "fst (finish h out') = finalize h" for out'
    using assms(1) by (simp add: finish_unfold Let_def)
  obtain w v pos where hb: "hashBlocks (temp h) (state h) (pad_buffer h) 0 pl = (w, v, pos)"
    by (metis prod_cases3)
  then have fin: "finalize h = h\<lparr>state := v, temp := w, buffer := pad_buffer h, finished := True\<rparr>"
    by (simp add: finalize_def pl_def)
  from finalize_eq[OF len(2) plb[unfolded pl_def]]
  have st: "state (finalize h) = foldl compress (state h) (blocks_of (take pl (pad_buffer h)))"
    by (auto simp: pl_def)
  have wf': "length (state (finalize h)) = 5"
    using wf_finalize[OF assms(2)] by (simp add: wf_def)
  have b1: "take pl (buffer (finalize h)) =
      take (bufferLength h) (buffer h) @ [0x80] @ replicate (pl - 9 - bufferLength h) 0 @
      be32 (bitLenHi_of h) @ be32 (bitLenLo_of h)"
    using take_pad_buffer[OF len(1) assms(3)] by (simp add: fin pl_def)
  have b2: "drop pl (buffer (finalize h)) = drop pl (buffer h)"
  proof -
    define A where "A = take (bufferLength h) (buffer h) @ [0x80] @
        replicate (pl - 9 - bufferLength h) 0 @ be32 (bitLenHi_of h) @ be32 (bitLenLo_of h)"
    have "bufferLength h + 9 \<le> pl" using assms(3) by (auto simp: pl_def padLength_of_def)
    then have L: "length A = pl" using len plb by (simp add: A_def length_be32)
    have "pad_buffer h = A @ drop pl (buffer h)"
      using pad_buffer_layout[OF len(1) assms(3)] by (simp add: A_def pl_def)
    then have "drop pl (pad_buffer h) = drop pl (buffer h)" using L by simp
    then show ?thesis by (simp add: fin)
  qed
  have c: "word_cat (bitLenHi_of h) (bitLenLo_of h) = (word_of_nat (8 * bytesHashed h) :: 64 word)"
    using bit_len_64[of "bytesHashed h"] by (simp add: bitLenHi_of_def bitLenLo_of_def)
  have e: "\<exists>w pos. hashBlocks (temp h) (state h) (buffer (finalize h)) 0 pl = (w, state (finalize h), pos) \<and>
      temp (finalize h) = w"
    using hb by (simp add: fin)
  have d1: "DIGEST_LENGTH \<le> length out \<longrightarrow>
      take DIGEST_LENGTH (snd (finish h out)) = digest_bytes (state (finalize h))"
    by (simp add: finish_out f write_digest_take_drop[OF wf'] length_digest_bytes wf' DIGEST_LENGTH_def)
  have d2: "snd (digest h) = digest_bytes (state (finalize h))"
    by (simp add: digest_def finish_out f write_digest_full wf' DIGEST_LENGTH_def)
  show ?thesis
    unfolding Let_def pl hi lo f
    using b1 b2 c e st d1 d2 by (simp add: fin)
qed

theorem finish_padding_witness:
  "\<not> finished (snd (update SHA1_new (replicate 56 7) 56)) \<and>
   wf (snd (update SHA1_new (replicate 56 7) 56)) \<and>
   bufferLength (snd (update SHA1_new (replicate 56 7) 56)) =
     bytesHashed (snd (update SHA1_new (replicate 56 7) 56)) mod 64 \<and>
   bufferLength (snd (update SHA1_new (replicate 56 7) 56)) = 56 \<and>
   take 128 (buffer (fst (finish (snd (update SHA1_new (replicate 56 7) 56)) (replicate 20 0)))) =
     replicate 56 7 @ [0x80] @ replicate 63 0 @ be32 0 @ be32 448 \<and>
   finished (fst (finish (snd (update SHA1_new (replicate 56 7) 56)) (replicate 20 0)))"
proof -
  define h where "h = snd (update SHA1_new (replicate 56 7) 56)"
  have "slice (replicate 56 (7 :: byte)) 0 56 = replicate 56 7"
    using slice_self[of "replicate 56 (7 :: byte)"] by simp
  with update_absorbed[OF absorbed_new, of "replicate 56 7" 56]
  have ab: "absorbed h (replicate 56 7)" by (auto simp: h_def)
  then have a: "\<not> finished h" "wf h" "bufferLength h = bytesHashed h mod 64"
    and b: "bufferLength h = 56" "bytesHashed h = 56" "take 56 (buffer h) = replicate 56 7"
    by (simp_all add: absorbed_def absorbed_from_def)
  from finish_padding [OF a, of "replicate 20 0"] a b show ?thesis
    unfolding h_def [symmetric] by (simp add: Let_def)
qed

text \<open>
  Claim C4 as stated fails: \<open>finish\<close> chooses the padded length from the byte counter, not
  from the buffered length.  \<open>restoreState\<close> with a snapshot written by hand gives an
  unfinished hasher with 60 buffered bytes and a byte counter of 0.  The buffered length
  modulo 64 is not below 56, yet \<open>finish\<close> pads to 64 bytes: the engine is run over the
  first 64 bytes only, the bytes from 64 on keep their value 7, and the two length words,
  written at 56 and 60, replace the byte 0x80 that was stored at 60.
\<close>

theorem finish_padding_counterexample:
  "reachable (snd (restoreState SHA1_new (handmade 60 0))) \<and>
   \<not> finished (snd (restoreState SHA1_new (handmade 60 0))) \<and>
   bufferLength (snd (restoreState SHA1_new (handmade 60 0))) = 60 \<and>
   \<not> bufferLength (snd (restoreState SHA1_new (handmade 60 0))) mod 64 < 56 \<and>
   bytesHashed (snd (restoreState SHA1_new (handmade 60 0))) = 0 \<and>
   buffer (snd (restoreState SHA1_new (handmade 60 0))) = replicate 128 7 \<and>
   buffer (fst (finish (snd (restoreState SHA1_new (handmade 60 0))) (replicate 20 0))) =
     replicate 56 7 @ replicate 8 0 @ replicate 64 7 \<and>
   buffer (fst (finish (snd (restoreState SHA1_new (handmade 60 0))) (replicate 20 0))) ! 60 \<noteq> 0x80 \<and>
   take 128 (buffer (fst (finish (snd (restoreState SHA1_new (handmade 60 0))) (replicate 20 0)))) \<noteq>
     take 60 (buffer (snd (restoreState SHA1_new (handmade 60 0)))) @ [0x80] @
     replicate (128 - 9 - 60) 0 @ be32 0 @ be32 0 \<and>
   hashBlocks (temp (snd (restoreState SHA1_new (handmade 60 0))))
       (state (snd (restoreState SHA1_new (handmade 60 0))))
       (buffer (fst (finish (snd (restoreState SHA1_new (handmade 60 0))) (replicate 20 0)))) 0 64 =
     (temp (fst (finish (snd (restoreState SHA1_new (handmade 60 0))) (replicate 20 0))),
      state (fst (finish (snd (restoreState SHA1_new (handmade 60 0))) (replicate 20 0))), 64)"
proof -
  define h where "h = snd (restoreState SHA1_new (handmade 60 0))"
  define h' where "h' = fst (finish h (replicate 20 0))"
  have r: "reachable h" unfolding h_def by (rule reachable_handmade)
  have f: "\<not> finished h" "bufferLength h = 60" "bytesHashed h = 0"
    "buffer h = replicate 128 7" "temp h = replicate 80 0" "state h = H0"
    by (simp_all add: h_def restoreState_handmade)
  from finish_handmade_60[of "replicate 20 0"] obtain w where
    w: "h' = \<lparr>state = compress H0 (replicate 56 7 @ replicate 8 0), temp = w,
      buffer = replicate 56 7 @ replicate 8 0 @ replicate 64 7,
      bufferLength = 60, bytesHashed = 0, finished = True\<rparr>"
    and hb: "hashBlocks (replicate 80 0) H0 (replicate 56 7 @ replicate 8 0 @ replicate 64 7) 0 64 =
       (w, compress H0 (replicate 56 7 @ replicate 8 0), 64)"
    unfolding h'_def h_def by blast
  have b: "buffer h' = replicate 56 7 @ replicate 8 0 @ replicate 64 7" by (simp add: w)
  have n: "buffer h' ! 60 \<noteq> 0x80" by (simp add: b nth_append)
  have "(take 60 (buffer h) @ [0x80] @ replicate (128 - 9 - 60) 0 @ be32 0 @ be32 0) ! 60 = 0x80"
    by (simp add: f nth_append)
  moreover have "take 128 (buffer h') ! 60 = buffer h' ! 60" by simp
  ultimately have t: "take 128 (buffer h') \<noteq>
     take 60 (buffer h) @ [0x80] @ replicate (128 - 9 - 60) 0 @ be32 0 @ be32 0"
    using n by metis
  have e: "hashBlocks (temp h) (state h) (buffer h') 0 64 = (temp h', state h', 64)"
    using hb by (simp add: f w)
  show ?thesis
    unfolding h_def [symmetric] h'_def [symmetric]
    using r f(1-4) b n t e by simp
qed

text \<open>
  Claim C5.  On a hasher whose finished flag is set, \<open>update\<close> throws, whatever the data,
  and leaves every field of the hasher as it was.
\<close>

theorem update_after_finish:
  "finished h \<Longrightarrow>
   update h data dataLength = (Inl (Error ''SHA1: can't update because hash was finished.''), h)"
  by (simp add: update_def)

theorem update_after_finish_witness:
  "finished (fst (finish SHA1_new [])) \<and>
   update (fst (finish SHA1_new [])) [1, 2, 3] 3 =
     (Inl (Error ''SHA1: can't update because hash was finished.''), fst (finish SHA1_new []))"
  using update_after_finish [of "fst (finish SHA1_new [])" "[1, 2, 3]" 3] finished_finish
  by simp

text \<open>
  Claim C6, as amended.  \<open>finish\<close> does not check the length of the output array; it has
  no error branch.  Whatever the length, it finalizes the hasher and returns; the output
  array keeps its length and receives as many of the 20 digest bytes as it has room for,
  a store past the end of a typed array being dropped.
\<close>

theorem finish_unchecked_out:
  "wf h \<Longrightarrow>
   finished (fst (finish h out)) \<and>
   length (snd (finish h out)) = length out \<and>
   snd (finish h out) =
     take (length out) (digest_bytes (state (fst (finish h out)))) @ drop DIGEST_LENGTH out"
proof -
  assume "wf h"
  then have "length (state (fst (finish h out))) = 5"
    using wf_finish[of h out] by (simp add: wf_def)
  then have "snd (finish h out) =
      take (length out) (digest_bytes (state (fst (finish h out)))) @ drop DIGEST_LENGTH out"
    by (simp add: finish_out[of h out] write_digest_take_drop DIGEST_LENGTH_def)
  moreover have "length (snd (finish h out)) = length out"
    by (simp add: finish_out[of h out] length_write_digest)
  ultimately show ?thesis by (simp add: finished_finish)
qed

theorem finish_unchecked_out_witness:
  "wf SHA1_new \<and> finished (fst (finish SHA1_new [1, 2, 3])) \<and>
   length (snd (finish SHA1_new [1, 2, 3])) = length [1, 2, 3 :: byte] \<and>
   snd (finish SHA1_new [1, 2, 3]) =
     take (length [1, 2, 3 :: byte]) (digest_bytes (state (fst (finish SHA1_new [1, 2, 3])))) @
     drop DIGEST_LENGTH [1, 2, 3]"
  using finish_unchecked_out [OF wf_new, of "[1, 2, 3]"] wf_new by blast

text \<open>
  Claim C6 as stated fails: with an array of 19 bytes \<open>finish\<close> returns, the hasher is
  finished and the array holds the first 19 bytes of the digest of the empty message.
\<close>

theorem finish_short_out_counterexample:
  "length (replicate 19 (0 :: byte)) < DIGEST_LENGTH \<and>
   finished (fst (finish SHA1_new (replicate 19 0))) \<and>
   length (snd (finish SHA1_new (replicate 19 0))) = 19 \<and>
   snd (finish SHA1_new (replicate 19 0)) =
     take 19 (digest_bytes [0xda39a3ee, 0x5e6b4b0d, 0x3255bfef, 0x95601890, 0xafd80709])"
proof -
  have "snd (finish SHA1_new (replicate 19 0)) =
      write_digest [0xda39a3ee, 0x5e6b4b0d, 0x3255bfef, 0x95601890, 0xafd80709] (replicate 19 0)"
    by (simp add: finish_absorbed[OF absorbed_new] kat_empty_state)
  also have "\<dots> = take 19 (digest_bytes [0xda39a3ee, 0x5e6b4b0d, 0x3255bfef, 0x95601890, 0xafd80709])"
    by (simp add: write_digest_take_drop)
  finally show ?thesis
    by (simp add: finished_finish DIGEST_LENGTH_def length_digest_bytes)
qed

text \<open>
  Claim C7.  For all 32-bit words \<open>x\<close> and \<open>y\<close>, \<open>safeAdd x y\<close> is the sum modulo
  \<open>2 ^ 32\<close>: it wraps around and does not saturate.  So the new \<open>a\<close> of a round is
  \<open>rotl5(a) + f + e + k + w[i]\<close> modulo \<open>2 ^ 32\<close>, and after the rounds \<open>a\<close> to \<open>e\<close> are
  added to the five state words modulo \<open>2 ^ 32\<close>.
\<close>

theorem safeAdd_wraps:
  "safeAdd x y = x + y \<and>
   unat (safeAdd x y) = (unat x + unat y) mod 2 ^ 32 \<and>
   fst (round_step w i (a, b, c, d, e)) = word_rotl 5 a + round_f i b c d + e + round_k i + w ! i \<and>
   accumulate [v0, v1, v2, v3, v4] (a, b, c, d, e) = [v0 + a, v1 + b, v2 + c, v3 + d, v4 + e]"
proof (intro conjI)
  show "safeAdd x y = x + y" by (rule safeAdd_eq)
  show "unat (safeAdd x y) = (unat x + unat y) mod 2 ^ 32"
    by (simp add: safeAdd_eq unat_word_ariths)
  show "fst (round_step w i (a, b, c, d, e)) = word_rotl 5 a + round_f i b c d + e + round_k i + w ! i"
    by (simp add: round_step_def safeAdd_eq leftrotate_eq ac_simps)
  show "accumulate [v0, v1, v2, v3, v4] (a, b, c, d, e) = [v0 + a, v1 + b, v2 + c, v3 + d, v4 + e]"
    by (simp add: accumulate_def safeAdd_eq)
qed

theorem safeAdd_wraps_witness:
  "safeAdd 0xffffffff 1 = 0 \<and> unat (safeAdd 0xffffffff 2) = 1"
  using safeAdd_wraps [of "0xffffffff" 1] safeAdd_wraps [of "0xffffffff" 2] by simp

text \<open>
  Claim C8.  With a key longer than the block size, \<open>hashWithHmac\<close> gives what it gives
  with the SHA-1 digest of the key as the key.  With a key that fits a block, the result
  is the hash of the outer pad followed by the hash of the inner pad followed by the
  message, the pads being the key filled with zeros to the block size and combined by XOR
  with 0x5C and with 0x36.
\<close>

theorem hmac_long_key:
  "(BLOCK_SIZE < length key \<longrightarrow>
      (\<exists>k. hash key = Inr k \<and> length k = DIGEST_LENGTH \<and>
           hashWithHmac key data = hashWithHmac k data)) \<and>
   (length key \<le> BLOCK_SIZE \<longrightarrow>
      (\<exists>inner.
         hash (map (\<lambda>b. b XOR 0x36) (key @ replicate (BLOCK_SIZE - length key) 0) @ data) = Inr inner \<and>
         hashWithHmac key data =
           hash (map (\<lambda>b. b XOR 0x5c) (key @ replicate (BLOCK_SIZE - length key) 0) @ inner)))"
proof (intro conjI impI)
  assume long: "BLOCK_SIZE < length key"
  define k where "k = digest_bytes (sha1_state key)"
  have hk: "hash key = Inr k" by (simp add: hash_eq k_def)
  have lk: "length k = DIGEST_LENGTH" using hash_length[OF hk] .
  then have "\<not> BLOCK_SIZE < length k" by (simp add: DIGEST_LENGTH_def BLOCK_SIZE_def)
  then have "hashWithHmac key data = hashWithHmac k data"
    using long hk by (simp add: hashWithHmac_def hmac_def)
  then show "\<exists>k. hash key = Inr k \<and> length k = DIGEST_LENGTH \<and> hashWithHmac key data = hashWithHmac k data"
    using hk lk by blast
next
  assume short: "length key \<le> BLOCK_SIZE"
  define inner where
    "inner = digest_bytes (sha1_state (map (\<lambda>b. b XOR 0x36) (key @ replicate (BLOCK_SIZE - length key) 0) @ data))"
  have i: "hash (map (\<lambda>b. b XOR 0x36) (key @ replicate (BLOCK_SIZE - length key) 0) @ data) = Inr inner"
    by (simp add: hash_eq inner_def)
  then have "hashWithHmac key data =
      hash (map (\<lambda>b. b XOR 0x5c) (key @ replicate (BLOCK_SIZE - length key) 0) @ inner)"
    using short by (simp add: hashWithHmac_def hmac_def Let_def)
  then show "\<exists>inner.
         hash (map (\<lambda>b. b XOR 0x36) (key @ replicate (BLOCK_SIZE - length key) 0) @ data) = Inr inner \<and>
         hashWithHmac key data =
           hash (map (\<lambda>b. b XOR 0x5c) (key @ replicate (BLOCK_SIZE - length key) 0) @ inner)"
    using i by blast
qed

theorem hmac_long_key_witness:
  "BLOCK_SIZE < length (replicate 65 (1 :: byte)) \<and>
   (\<exists>k. hash (replicate 65 1) = Inr k \<and> length k = DIGEST_LENGTH \<and>
        hashWithHmac (replicate 65 1) [2, 3] = hashWithHmac k [2, 3])"
proof -
  have l: "BLOCK_SIZE < length (replicate 65 (1 :: byte))" by (simp add: BLOCK_SIZE_def)
  with hmac_long_key [of "replicate 65 1" "[2, 3]"] show ?thesis by blast
qed

text \<open>
  Claim C9.  \<open>reset\<close> has no error branch; it puts the five constants into the state
  words, zeroes the buffer length and the byte counter and clears the finished flag.
  Whatever a hasher went through before (here: any contents of its fields, the arrays
  having their sizes), hashing a byte sequence after \<open>reset\<close> gives the digest that a
  new hasher gives.
\<close>

theorem reset_no_leak:
  "wf h \<Longrightarrow>
   state (reset h) = [0x67452301, 0xefcdab89, 0x98badcfe, 0x10325476, 0xc3d2e1f0] \<and>
   bufferLength (reset h) = 0 \<and> bytesHashed (reset h) = 0 \<and> \<not> finished (reset h) \<and>
   (\<exists>h1 h2. update (reset h) m (length m) = (Inr (), h1) \<and>
      update SHA1_new m (length m) = (Inr (), h2) \<and>
      snd (digest h1) = snd (digest h2))"
proof -
  assume wf: "wf h"
  from update_absorbed[OF absorbed_reset[OF wf], of m "length m"]
  obtain h1 where h1: "update (reset h) m (length m) = (Inr (), h1)" "absorbed h1 m"
    by (auto simp: slice_self)
  from update_absorbed[OF absorbed_new, of m "length m"]
  obtain h2 where h2: "update SHA1_new m (length m) = (Inr (), h2)" "absorbed h2 m"
    by (auto simp: slice_self)
  have "snd (digest h1) = snd (digest h2)"
    by (simp add: digest_absorbed[OF h1(2)] digest_absorbed[OF h2(2)])
  then have "\<exists>h1 h2. update (reset h) m (length m) = (Inr (), h1) \<and>
      update SHA1_new m (length m) = (Inr (), h2) \<and> snd (digest h1) = snd (digest h2)"
    using h1(1) h2(1) by blast
  moreover have "state (reset h) = [0x67452301, 0xefcdab89, 0x98badcfe, 0x10325476, 0xc3d2e1f0]"
    using state_reset[of h] wf by (simp add: wf_def H0_def)
  ultimately show ?thesis by (simp add: reset_fields)
qed

theorem reset_no_leak_witness:
  "wf \<lparr>state = [1, 2, 3, 4, 5], temp = replicate 80 7, buffer = replicate 128 9,
       bufferLength = 3, bytesHashed = 1000, finished = True\<rparr> \<and>
   (\<exists>h1 h2.
      update (reset \<lparr>state = [1, 2, 3, 4, 5], temp = replicate 80 7, buffer = replicate 128 9,
                      bufferLength = 3, bytesHashed = 1000, finished = True\<rparr>) [1, 2, 3] (length [1, 2, 3 :: byte]) = (Inr (), h1) \<and>
      update SHA1_new [1, 2, 3] (length [1, 2, 3 :: byte]) = (Inr (), h2) \<and>
      snd (digest h1) = snd (digest h2))"
proof -
  have w: "wf \<lparr>state = [1, 2, 3, 4, 5], temp = replicate 80 7, buffer = replicate 128 9,
       bufferLength = 3, bytesHashed = 1000, finished = True\<rparr>"
    by (simp add: wf_def)
  from reset_no_leak [OF w, of "[1, 2, 3]"] w show ?thesis by blast
qed




end
